theory Spec2Isabelle
  imports Main
begin

section \<open>JavaScript strings\<close>

text \<open>
  A JavaScript string is a sequence of UTF-16 code units, and the regular expressions of
  \<^verbatim>\<open>renderSimpleMarkdown\<close> (none has the \<^verbatim>\<open>u\<close> flag) work on code units. A code unit is
  a natural number here; \<open>js\<close> turns an Isabelle literal into the string of its codes and
  \<open>ch\<close> does the same for one character.
\<close>

type_synonym jsstring = "nat list"

definition js :: "string \<Rightarrow> jsstring" where
  "js s = map of_char s"

definition ch :: "char \<Rightarrow> nat" where
  "ch c = of_char c"

text \<open>
  The line terminators of ECMAScript (LF, CR, U+2028, U+2029): the characters that
  \<^verbatim>\<open>.\<close> does not match.
\<close>

definition isLineTerminator :: "nat \<Rightarrow> bool" where
  "isLineTerminator c = (c = 0x0A \<or> c = 0x0D \<or> c = 0x2028 \<or> c = 0x2029)"

text \<open>
  The class \<^verbatim>\<open>\s\<close>, which is also the set of characters \<^verbatim>\<open>trim()\<close> strips: white space
  (TAB, VT, FF, SP, NBSP, the space separators, U+FEFF) and the line terminators.
\<close>

definition isSpace :: "nat \<Rightarrow> bool" where
  "isSpace c = (c = 0x09 \<or> c = 0x0B \<or> c = 0x0C \<or> c = 0x20 \<or> c = 0xA0 \<or> c = 0x1680
     \<or> (0x2000 \<le> c \<and> c \<le> 0x200A) \<or> c = 0x202F \<or> c = 0x205F \<or> c = 0x3000
     \<or> c = 0xFEFF \<or> isLineTerminator c)"

text \<open>The class \<^verbatim>\<open>\d\<close>.\<close>

definition isDigit :: "nat \<Rightarrow> bool" where
  "isDigit c = (ch CHR ''0'' \<le> c \<and> c \<le> ch CHR ''9'')"

text \<open>The class \<^verbatim>\<open>[-*_]\<close>.\<close>

definition isRuleChar :: "nat \<Rightarrow> bool" where
  "isRuleChar c = (c = ch CHR ''-'' \<or> c = ch CHR ''*'' \<or> c = ch CHR ''_'')"

text \<open>The class \<^verbatim>\<open>.\<close> (no \<^verbatim>\<open>s\<close> flag).\<close>

definition isDot :: "nat \<Rightarrow> bool" where
  "isDot c = (\<not> isLineTerminator c)"

fun startsWith :: "jsstring \<Rightarrow> jsstring \<Rightarrow> bool" where
  "startsWith s [] = True"
| "startsWith [] (p # ps) = False"
| "startsWith (c # cs) (p # ps) = (c = p \<and> startsWith cs ps)"

definition trim :: "jsstring \<Rightarrow> jsstring" where
  "trim s = rev (dropWhile isSpace (rev (dropWhile isSpace s)))"

text \<open>\<^verbatim>\<open>text.split('\n')\<close>: the segments between the line feeds, \<open>[[]]\<close> for the empty string.\<close>

fun split :: "jsstring \<Rightarrow> jsstring list" where
  "split [] = [[]]"
| "split (c # cs) =
     (if c = 0x0A then [] # split cs
      else (case split cs of [] \<Rightarrow> [[c]] | l # ls \<Rightarrow> (c # l) # ls))"

text \<open>\<^verbatim>\<open>xs.join('\n')\<close>.\<close>

fun join :: "jsstring list \<Rightarrow> jsstring" where
  "join [] = []"
| "join [x] = x"
| "join (x # y # ys) = x @ 0x0A # join (y # ys)"

section \<open>Regular-expression fragments\<close>

text \<open>
  A matcher takes the string from the current position on and returns what it captured
  and the rest behind the match, or \<open>None\<close> when the backtracking search fails.

  \<open>lit d\<close> matches the literal \<open>d\<close>. \<open>lazyStar p k\<close> is \<^verbatim>\<open>X*?\<close> followed by the rest \<open>k\<close>
  of the pattern, where \<open>p\<close> is the class \<^verbatim>\<open>X\<close>: the rest is tried first, and only when it
  fails one more character of the class is taken. \<open>lazyPlus\<close> is \<^verbatim>\<open>X+?\<close>.
  \<open>spacesPlus\<close> is a greedy \<^verbatim>\<open>\s+\<close> and \<open>dotStar\<close> the capture of a greedy \<^verbatim>\<open>(.*)\<close> that ends a
  pattern: what follows them cannot fail, so they never give a character back.
\<close>

definition lit :: "jsstring \<Rightarrow> jsstring \<Rightarrow> jsstring option" where
  "lit d s = (if startsWith s d then Some (drop (length d) s) else None)"

fun lazyStar :: "(nat \<Rightarrow> bool) \<Rightarrow> (jsstring \<Rightarrow> 'a option) \<Rightarrow> jsstring \<Rightarrow> (jsstring \<times> 'a) option" where
  "lazyStar p k [] = (case k [] of Some r \<Rightarrow> Some ([], r) | None \<Rightarrow> None)"
| "lazyStar p k (c # cs) =
     (case k (c # cs) of
        Some r \<Rightarrow> Some ([], r)
      | None \<Rightarrow>
          if p c then (case lazyStar p k cs of Some (a, r) \<Rightarrow> Some (c # a, r) | None \<Rightarrow> None)
          else None)"

definition lazyPlus :: "(nat \<Rightarrow> bool) \<Rightarrow> (jsstring \<Rightarrow> 'a option) \<Rightarrow> jsstring \<Rightarrow> (jsstring \<times> 'a) option" where
  "lazyPlus p k s =
     (case s of
        [] \<Rightarrow> None
      | c # cs \<Rightarrow>
          if p c then (case lazyStar p k cs of Some (a, r) \<Rightarrow> Some (c # a, r) | None \<Rightarrow> None)
          else None)"

definition spacesPlus :: "jsstring \<Rightarrow> jsstring option" where
  "spacesPlus s =
     (case s of [] \<Rightarrow> None | c # cs \<Rightarrow> if isSpace c then Some (dropWhile isSpace cs) else None)"

definition dotStar :: "jsstring \<Rightarrow> jsstring" where
  "dotStar s = takeWhile isDot s"

text \<open>
  \<^verbatim>\<open>s.replace(re, template)\<close> for a global \<^verbatim>\<open>re\<close>. The matcher \<open>m\<close> returns the expanded
  template and the text after the match. The search goes left to right; where \<open>m\<close> fails
  the character is copied and the search moves on by one; after a match it goes on behind
  the match, and behind an empty match it moves on by one character as well.
\<close>

function replaceGlobal :: "(jsstring \<Rightarrow> (jsstring \<times> jsstring) option) \<Rightarrow> jsstring \<Rightarrow> jsstring" where
  "replaceGlobal m [] = (case m [] of Some (rep, rest) \<Rightarrow> rep | None \<Rightarrow> [])"
| "replaceGlobal m (c # cs) =
     (case m (c # cs) of
        None \<Rightarrow> c # replaceGlobal m cs
      | Some (rep, rest) \<Rightarrow>
          if length rest < length (c # cs) then rep @ replaceGlobal m rest
          else rep @ c # replaceGlobal m cs)"
  by pat_completeness auto
termination
  by (relation "measure (\<lambda>(m, s). length s)") auto

text \<open>\<^verbatim>\<open>s.replace(/c/g, rep)\<close> for a single character \<open>c\<close>.\<close>

definition replaceChar :: "nat \<Rightarrow> jsstring \<Rightarrow> jsstring \<Rightarrow> jsstring" where
  "replaceChar c rep s = concat (map (\<lambda>x. if x = c then rep else [x]) s)"

section \<open>Inline formatting\<close>

text \<open>
  \<^verbatim>\<open>(\*\*|__)(.*?)\1\<close>, \<^verbatim>\<open>(\*|_)(.*?)\1\<close> and \<^verbatim>\<open>~~(.*?)~~\<close>: the alternatives of the
  delimiter in order, then a lazy run of \<^verbatim>\<open>.\<close>, then the same delimiter again. When the
  rest fails behind one alternative the next one is tried. The result is the captured
  run and the text after the closing delimiter.
\<close>

fun matchPaired :: "jsstring list \<Rightarrow> jsstring \<Rightarrow> (jsstring \<times> jsstring) option" where
  "matchPaired [] s = None"
| "matchPaired (d # ds) s =
     (case lit d s of
        None \<Rightarrow> matchPaired ds s
      | Some t \<Rightarrow> (case lazyStar isDot (lit d) t of Some r \<Rightarrow> Some r | None \<Rightarrow> matchPaired ds s))"

definition strongOpen :: jsstring where
  \<open>strongOpen = js ''<strong class="font-semibold text-white">''\<close>

definition strongClose :: jsstring where
  \<open>strongClose = js ''</strong>''\<close>

definition emOpen :: jsstring where
  \<open>emOpen = js ''<em>''\<close>

definition emClose :: jsstring where
  \<open>emClose = js ''</em>''\<close>

definition delOpen :: jsstring where
  \<open>delOpen = js ''<del>''\<close>

definition delClose :: jsstring where
  \<open>delClose = js ''</del>''\<close>

definition codeOpen :: jsstring where
  \<open>codeOpen = js ''<code class="font-code bg-black/30 px-1 py-0.5 rounded-sm text-sm text-cyan-300">''\<close>

definition codeClose :: jsstring where
  \<open>codeClose = js ''</code>''\<close>

definition aOpen :: jsstring where
  \<open>aOpen = js ''<a href="''\<close>

definition aMid :: jsstring where
  \<open>aMid = js ''" target="_blank" rel="noopener noreferrer" class="text-cyan-400 hover:underline">''\<close>

definition aClose :: jsstring where
  \<open>aClose = js ''</a>''\<close>

definition matchBold :: "jsstring \<Rightarrow> (jsstring \<times> jsstring) option" where
  "matchBold s =
     (case matchPaired [js ''**'', js ''__''] s of
        None \<Rightarrow> None
      | Some (g2, rest) \<Rightarrow> Some (strongOpen @ g2 @ strongClose, rest))"

definition matchItalic :: "jsstring \<Rightarrow> (jsstring \<times> jsstring) option" where
  "matchItalic s =
     (case matchPaired [js ''*'', js ''_''] s of
        None \<Rightarrow> None
      | Some (g2, rest) \<Rightarrow> Some (emOpen @ g2 @ emClose, rest))"

definition matchStrike :: "jsstring \<Rightarrow> (jsstring \<times> jsstring) option" where
  "matchStrike s =
     (case matchPaired [js ''~~''] s of
        None \<Rightarrow> None
      | Some (g1, rest) \<Rightarrow> Some (delOpen @ g1 @ delClose, rest))"

text \<open>The code span: a backtick, a lazy non-empty run of characters other than the backtick, a backtick.\<close>

definition matchCode :: "jsstring \<Rightarrow> (jsstring \<times> jsstring) option" where
  \<open>matchCode s =
     (case lit (js ''`'') s of
        None \<Rightarrow> None
      | Some t \<Rightarrow>
          (case lazyPlus (\<lambda>c. c \<noteq> ch CHR ''`'') (lit (js ''`'')) t of
             None \<Rightarrow> None
           | Some (g1, rest) \<Rightarrow> Some (codeOpen @ g1 @ codeClose, rest)))\<close>

text \<open>\<^verbatim>\<open>\[(.*?)\]\((.*?)\)\<close>: the label is the shortest run behind which the rest matches.\<close>

definition matchLink :: "jsstring \<Rightarrow> (jsstring \<times> jsstring) option" where
  "matchLink s =
     (case lit (js ''['') s of
        None \<Rightarrow> None
      | Some t \<Rightarrow>
          (case lazyStar isDot
                  (\<lambda>u. case lit (js '']('') u of
                         None \<Rightarrow> None
                       | Some v \<Rightarrow> lazyStar isDot (lit (js '')'')) v) t of
             None \<Rightarrow> None
           | Some (g1, g2, rest) \<Rightarrow> Some (aOpen @ g2 @ aMid @ g1 @ aClose, rest)))"

definition escape :: "jsstring \<Rightarrow> jsstring" where
  "escape line =
     replaceChar (ch CHR ''>'') (js ''&gt;'')
       (replaceChar (ch CHR ''<'') (js ''&lt;'')
         (replaceChar (ch CHR ''&'') (js ''&amp;'') line))"

definition applyInlineFormatting :: "jsstring \<Rightarrow> jsstring" where
  "applyInlineFormatting line =
     replaceGlobal matchLink
       (replaceGlobal matchCode
         (replaceGlobal matchStrike
           (replaceGlobal matchItalic
             (replaceGlobal matchBold (escape line)))))"

section \<open>Line patterns\<close>

text \<open>
  \<^verbatim>\<open>^(#{1,3})\s+(.*)\<close>: the greedy \<^verbatim>\<open>#{1,3}\<close> is tried with three, two and one
  \<^verbatim>\<open>#\<close>, in this order. The result is the number of \<^verbatim>\<open>#\<close> (group 1) and group 2.
\<close>

fun matchHashes :: "nat \<Rightarrow> jsstring \<Rightarrow> (nat \<times> jsstring) option" where
  "matchHashes 0 line = None"
| "matchHashes (Suc n) line =
     (if take (Suc n) line = replicate (Suc n) (ch CHR ''#'') then
        (case spacesPlus (drop (Suc n) line) of
           Some t \<Rightarrow> Some (Suc n, dotStar t)
         | None \<Rightarrow> matchHashes n line)
      else matchHashes n line)"

definition headingMatch :: "jsstring \<Rightarrow> (nat \<times> jsstring) option" where
  "headingMatch line = matchHashes 3 line"

text \<open>\<^verbatim>\<open>^>\s?(.*)\<close>, the result is group 1.\<close>

definition blockquoteMatch :: "jsstring \<Rightarrow> jsstring option" where
  "blockquoteMatch line =
     (case lit (js ''>'') line of
        None \<Rightarrow> None
      | Some t \<Rightarrow> Some (dotStar (case t of [] \<Rightarrow> [] | c # cs \<Rightarrow> if isSpace c then cs else t)))"

text \<open>\<^verbatim>\<open>^[-*_]{3,}$\<close> (no \<^verbatim>\<open>m\<close> flag: \<^verbatim>\<open>$\<close> is the end of the line).\<close>

definition ruleMatch :: "jsstring \<Rightarrow> bool" where
  "ruleMatch line = (3 \<le> length (takeWhile isRuleChar line) \<and> dropWhile isRuleChar line = [])"

text \<open>\<^verbatim>\<open>^(\s*)[\-*]\s+(.*)\<close>, the result is group 2.\<close>

definition ulMatch :: "jsstring \<Rightarrow> jsstring option" where
  "ulMatch line =
     (case dropWhile isSpace line of
        [] \<Rightarrow> None
      | c # cs \<Rightarrow>
          if c = ch CHR ''-'' \<or> c = ch CHR ''*'' then
            (case spacesPlus cs of Some t \<Rightarrow> Some (dotStar t) | None \<Rightarrow> None)
          else None)"

text \<open>\<^verbatim>\<open>^(\s*)\d+\.\s+(.*)\<close>, the result is group 2.\<close>

definition olMatch :: "jsstring \<Rightarrow> jsstring option" where
  "olMatch line =
     (let t = dropWhile isSpace line in
      if takeWhile isDigit t = [] then None
      else
        (case dropWhile isDigit t of
           [] \<Rightarrow> None
         | c # cs \<Rightarrow>
             if c = ch CHR ''.'' then
               (case spacesPlus cs of Some u \<Rightarrow> Some (dotStar u) | None \<Rightarrow> None)
             else None))"

text \<open>
  The look-ahead of the paragraph loop,
  \<^verbatim>\<open>^(#{1,3}\s+.*|>\s?.*|[-*_]{3,}|(\s*)[\-*]\s+.*|(\s*)\d+\.\s+.*)\<close>:
  the five line patterns as alternatives, the third one without its \<^verbatim>\<open>$\<close>.
\<close>

definition paragraphBreak :: "jsstring \<Rightarrow> bool" where
  "paragraphBreak line =
     (headingMatch line \<noteq> None \<or> blockquoteMatch line \<noteq> None
      \<or> 3 \<le> length (takeWhile isRuleChar line)
      \<or> ulMatch line \<noteq> None \<or> olMatch line \<noteq> None)"

section \<open>Block markup\<close>

datatype listKind = UL | OL

fun tagName :: "listKind \<Rightarrow> jsstring" where
  "tagName UL = js ''ul''"
| "tagName OL = js ''ol''"

text \<open>The level is 1, 2 or 3, so its decimal form is one digit.\<close>

definition levelDigit :: "nat \<Rightarrow> jsstring" where
  "levelDigit level = [ch CHR ''0'' + level]"

definition headingSize :: "nat \<Rightarrow> jsstring" where
  "headingSize level =
     (if level = 1 then js ''text-xl mt-5 mb-3''
      else if level = 2 then js ''text-lg mt-4 mb-2''
      else js ''text-base mt-3 mb-1'')"

definition headingMarkup :: "nat \<Rightarrow> jsstring \<Rightarrow> jsstring" where
  \<open>headingMarkup level content =
     js ''<h'' @ levelDigit level @ js '' class="'' @ headingSize level
       @ js '' font-semibold text-white">'' @ content @ js ''</h'' @ levelDigit level @ js ''>''\<close>

definition blockquoteOpen :: jsstring where
  \<open>blockquoteOpen = js ''<blockquote class="border-l-4 border-cyan-500/50 pl-4 my-3 text-gray-300 italic bg-black/25 py-2 whitespace-pre-wrap">''\<close>

definition blockquoteClose :: jsstring where
  \<open>blockquoteClose = js ''</blockquote>''\<close>

definition hrMarkup :: jsstring where
  \<open>hrMarkup = js ''<hr class="my-4 border-gray-600"/>''\<close>

definition ulOpen :: jsstring where
  \<open>ulOpen = js ''<ul class="list-disc list-outside space-y-2 my-3 pl-6">''\<close>

definition olOpen :: jsstring where
  \<open>olOpen = js ''<ol class="list-decimal list-outside space-y-2 my-3 pl-6">''\<close>

definition liMarkup :: "jsstring \<Rightarrow> jsstring" where
  \<open>liMarkup content = js ''<li>'' @ content @ js ''</li>''\<close>

definition pOpen :: jsstring where
  \<open>pOpen = js ''<p class="my-2 leading-relaxed">''\<close>

definition pClose :: jsstring where
  \<open>pClose = js ''</p>''\<close>

section \<open>The line loop\<close>

text \<open>The variables of \<^verbatim>\<open>renderSimpleMarkdown\<close> that the loop changes.\<close>

record state =
  html :: jsstring
  inList :: "listKind option"
  i :: nat

definition closeListIfNeeded :: "state \<Rightarrow> state" where
  "closeListIfNeeded st =
     (case inList st of
        None \<Rightarrow> st
      | Some k \<Rightarrow> st\<lparr>html := html st @ js ''</'' @ tagName k @ js ''>'', inList := None\<rparr>)"

text \<open>
  The inner loop of the blockquote branch: from index \<open>n\<close> and the contents collected so
  far to the index of the last line consumed and all contents.
\<close>

function quoteLoop :: "jsstring list \<Rightarrow> nat \<Rightarrow> jsstring list \<Rightarrow> nat \<times> jsstring list" where
  "quoteLoop lines n quoteContent =
     (if n + 1 < length lines \<and> startsWith (lines ! (n + 1)) (js ''>'') then
        quoteLoop lines (n + 1)
          (quoteContent @ [applyInlineFormatting (trim (drop 1 (lines ! (n + 1))))])
      else (n, quoteContent))"
  by pat_completeness auto
termination
  by (relation "measure (\<lambda>(lines, n, q). length lines - n)") auto

declare quoteLoop.simps [simp del]

text \<open>The inner loop of the paragraph branch.\<close>

function paragraphLoop :: "jsstring list \<Rightarrow> nat \<Rightarrow> jsstring list \<Rightarrow> nat \<times> jsstring list" where
  "paragraphLoop lines n paragraphLines =
     (if n + 1 < length lines then
        (let nextLine = lines ! (n + 1) in
         if trim nextLine = [] \<or> paragraphBreak nextLine then (n, paragraphLines)
         else paragraphLoop lines (n + 1) (paragraphLines @ [nextLine]))
      else (n, paragraphLines))"
  by pat_completeness auto
termination
  by (relation "measure (\<lambda>(lines, n, p). length lines - n)") auto

declare paragraphLoop.simps [simp del]

text \<open>One iteration of the outer loop, entered with \<open>i st < length lines\<close>.\<close>

definition step :: "jsstring list \<Rightarrow> state \<Rightarrow> state" where
  "step lines st =
     (let line = lines ! i st in
      case headingMatch line of
        Some (level, g2) \<Rightarrow>
          (let st1 = closeListIfNeeded st in
           st1\<lparr>html := html st1 @ headingMarkup level (applyInlineFormatting g2), i := i st1 + 1\<rparr>)
      | None \<Rightarrow>
     (case blockquoteMatch line of
        Some g1 \<Rightarrow>
          (let st1 = closeListIfNeeded st;
               (n, quoteContent) = quoteLoop lines (i st1) [applyInlineFormatting g1] in
           st1\<lparr>html := html st1 @ blockquoteOpen @ join quoteContent @ blockquoteClose, i := n + 1\<rparr>)
      | None \<Rightarrow>
     (if ruleMatch line then
          (let st1 = closeListIfNeeded st in
           st1\<lparr>html := html st1 @ hrMarkup, i := i st1 + 1\<rparr>)
      else
     (case ulMatch line of
        Some g2 \<Rightarrow>
          (let st1 = (if inList st \<noteq> Some UL
                      then (let st0 = closeListIfNeeded st in
                            st0\<lparr>html := html st0 @ ulOpen, inList := Some UL\<rparr>)
                      else st) in
           st1\<lparr>html := html st1 @ liMarkup (applyInlineFormatting g2), i := i st1 + 1\<rparr>)
      | None \<Rightarrow>
     (case olMatch line of
        Some g2 \<Rightarrow>
          (let st1 = (if inList st \<noteq> Some OL
                      then (let st0 = closeListIfNeeded st in
                            st0\<lparr>html := html st0 @ olOpen, inList := Some OL\<rparr>)
                      else st) in
           st1\<lparr>html := html st1 @ liMarkup (applyInlineFormatting g2), i := i st1 + 1\<rparr>)
      | None \<Rightarrow>
     (if trim line \<noteq> [] then
          (let st1 = closeListIfNeeded st;
               (n, paragraphLines) = paragraphLoop lines (i st1) [line] in
           st1\<lparr>html := html st1 @ pOpen @ applyInlineFormatting (join paragraphLines) @ pClose,
               i := n + 1\<rparr>)
      else
          (let st1 = closeListIfNeeded st in st1\<lparr>i := i st1 + 1\<rparr>)))))))"

text \<open>
  The outer \<^verbatim>\<open>while (i < lines.length)\<close>. The result is \<open>None\<close> when the loop does not
  end.
\<close>

partial_function (option) loop :: "jsstring list \<Rightarrow> state \<Rightarrow> state option" where
  "loop lines st = (if i st < length lines then loop lines (step lines st) else Some st)"

declare loop.simps [code]

definition initial :: state where
  "initial = \<lparr>html = [], inList = None, i = 0\<rparr>"

definition renderSimpleMarkdown :: "jsstring \<Rightarrow> jsstring option" where
  "renderSimpleMarkdown text =
     (if text = [] then Some []
      else (case loop (split text) initial of
              None \<Rightarrow> None
            | Some st \<Rightarrow> Some (html (closeListIfNeeded st))))"

section \<open>The blocks of the output\<close>

text \<open>
  What one iteration appends to \<open>html\<close>, as a list of blocks: \<open>emit\<close> gives the markup of
  a block, and the markup of \<open>stepBlocks\<close> is what \<open>step\<close> appends. \<open>blocksOf\<close> collects the
  blocks of all iterations and of the last \<^verbatim>\<open>closeListIfNeeded()\<close>; every iteration
  consumes a line, so as many iterations as there are lines are enough.
\<close>

datatype block =
    Heading nat jsstring
  | Blockquote "jsstring list"
  | Rule
  | ListOpen listKind
  | ListItem jsstring
  | ListClose listKind
  | Paragraph jsstring

fun emit :: "block \<Rightarrow> jsstring" where
  "emit (Heading level content) = headingMarkup level content"
| "emit (Blockquote quoteContent) = blockquoteOpen @ join quoteContent @ blockquoteClose"
| "emit Rule = hrMarkup"
| "emit (ListOpen UL) = ulOpen"
| "emit (ListOpen OL) = olOpen"
| "emit (ListItem content) = liMarkup content"
| "emit (ListClose k) = js ''</'' @ tagName k @ js ''>''"
| "emit (Paragraph content) = pOpen @ content @ pClose"

definition closeBlocks :: "listKind option \<Rightarrow> block list" where
  "closeBlocks k = (case k of None \<Rightarrow> [] | Some x \<Rightarrow> [ListClose x])"

definition stepBlocks :: "jsstring list \<Rightarrow> state \<Rightarrow> block list" where
  "stepBlocks lines st =
     (let line = lines ! i st in
      case headingMatch line of
        Some (level, g2) \<Rightarrow> closeBlocks (inList st) @ [Heading level (applyInlineFormatting g2)]
      | None \<Rightarrow>
     (case blockquoteMatch line of
        Some g1 \<Rightarrow>
          closeBlocks (inList st)
            @ [Blockquote (snd (quoteLoop lines (i st) [applyInlineFormatting g1]))]
      | None \<Rightarrow>
     (if ruleMatch line then closeBlocks (inList st) @ [Rule]
      else
     (case ulMatch line of
        Some g2 \<Rightarrow>
          (if inList st \<noteq> Some UL then closeBlocks (inList st) @ [ListOpen UL] else [])
            @ [ListItem (applyInlineFormatting g2)]
      | None \<Rightarrow>
     (case olMatch line of
        Some g2 \<Rightarrow>
          (if inList st \<noteq> Some OL then closeBlocks (inList st) @ [ListOpen OL] else [])
            @ [ListItem (applyInlineFormatting g2)]
      | None \<Rightarrow>
     (if trim line \<noteq> [] then
        closeBlocks (inList st)
          @ [Paragraph (applyInlineFormatting (join (snd (paragraphLoop lines (i st) [line]))))]
      else closeBlocks (inList st)))))))"

fun blocksFrom :: "nat \<Rightarrow> jsstring list \<Rightarrow> state \<Rightarrow> block list" where
  "blocksFrom 0 lines st = closeBlocks (inList st)"
| "blocksFrom (Suc n) lines st =
     (if i st < length lines then stepBlocks lines st @ blocksFrom n lines (step lines st)
      else closeBlocks (inList st))"

definition blocksOf :: "jsstring \<Rightarrow> block list" where
  "blocksOf text =
     (if text = [] then [] else blocksFrom (length (split text)) (split text) initial)"

text \<open>
  \<open>wellNested k bs\<close>: read with a list of kind \<open>k\<close> open (or none), the blocks \<open>bs\<close> open a
  list only when none is open, close only the list that is open, have list items only
  inside a list and every other block only outside, and leave no list open at the end.
\<close>

fun wellNested :: "listKind option \<Rightarrow> block list \<Rightarrow> bool" where
  "wellNested k [] = (k = None)"
| "wellNested k (ListOpen x # bs) = (k = None \<and> wellNested (Some x) bs)"
| "wellNested k (ListItem c # bs) = (k \<noteq> None \<and> wellNested k bs)"
| "wellNested k (ListClose x # bs) = (k = Some x \<and> wellNested None bs)"
| "wellNested k (b # bs) = (k = None \<and> wellNested None bs)"

text \<open>\<open>formatted b\<close>: every text of the block \<open>b\<close> is a result of \<open>applyInlineFormatting\<close>.\<close>

fun formatted :: "block \<Rightarrow> bool" where
  "formatted (Heading level content) = (content \<in> range applyInlineFormatting)"
| "formatted (Blockquote quoteContent) = (set quoteContent \<subseteq> range applyInlineFormatting)"
| "formatted (ListItem content) = (content \<in> range applyInlineFormatting)"
| "formatted (Paragraph content) = (content \<in> range applyInlineFormatting)"
| "formatted b = True"

section \<open>Text and markup in the output\<close>

definition headingOpen :: "nat \<Rightarrow> jsstring" where
  \<open>headingOpen level =
     js ''<h'' @ levelDigit level @ js '' class="'' @ headingSize level
       @ js '' font-semibold text-white">''\<close>

definition headingClose :: "nat \<Rightarrow> jsstring" where
  \<open>headingClose level = js ''</h'' @ levelDigit level @ js ''>''\<close>

text \<open>What \<open>escape\<close> puts for one character.\<close>

definition escapeChar :: "nat \<Rightarrow> jsstring" where
  "escapeChar c =
     (if c = ch CHR ''&'' then js ''&amp;''
      else if c = ch CHR ''<'' then js ''&lt;''
      else if c = ch CHR ''>'' then js ''&gt;'' else [c])"

text \<open>The entities of \<open>escape\<close> and every piece of markup of the templates of the source.\<close>

definition entities :: "jsstring list" where
  "entities = [js ''&amp;'', js ''&lt;'', js ''&gt;'']"

definition inlineMarkup :: "jsstring list" where
  "inlineMarkup =
     [strongOpen, strongClose, emOpen, emClose, delOpen, delClose, codeOpen, codeClose,
      aOpen, aMid, aClose]"

definition blockMarkup :: "jsstring list" where
  "blockMarkup =
     [headingOpen 1, headingOpen 2, headingOpen 3, headingClose 1, headingClose 2,
      headingClose 3, blockquoteOpen, blockquoteClose, hrMarkup, ulOpen, olOpen,
      js ''</ul>'', js ''</ol>'', js ''<li>'', js ''</li>'', pOpen, pClose]"

text \<open>
  All pieces together; \<open>earlyMarkup\<close> are the pieces that the link rule, the last one, finds
  in its input, and \<open>delimiterChars\<close> are the characters of the delimiters of the inline
  patterns.
\<close>

definition rendererMarkup :: "jsstring list" where
  "rendererMarkup = entities @ inlineMarkup @ blockMarkup"

definition earlyMarkup :: "jsstring list" where
  "earlyMarkup = entities @ [strongOpen, strongClose, emOpen, emClose, delOpen, delClose,
     codeOpen, codeClose]"

definition delimiterChars :: "nat set" where
  \<open>delimiterChars = {ch CHR ''*'', ch CHR ''_'', ch CHR ''~'', ch CHR ''`'', ch CHR ''['',
     ch CHR '']'', ch CHR ''('', ch CHR '')''}\<close>

definition reserved :: "nat set" where
  "reserved = {ch CHR ''&'', ch CHR ''<'', ch CHR ''>''}"

text \<open>
  \<open>madeOf F s\<close>: the string \<open>s\<close> is a sequence of pieces of \<open>F\<close> and of single characters
  other than \<^verbatim>\<open>&\<close>, \<^verbatim>\<open><\<close> and \<^verbatim>\<open>>\<close>, so each of these three characters in \<open>s\<close> lies in
  a piece of \<open>F\<close>.
\<close>

inductive madeOf :: "jsstring list \<Rightarrow> jsstring \<Rightarrow> bool" for F :: "jsstring list" where
  madeOf_Nil: "madeOf F []"
| madeOf_Char: "c \<notin> reserved \<Longrightarrow> madeOf F s \<Longrightarrow> madeOf F (c # s)"
| madeOf_Piece: "f \<in> set F \<Longrightarrow> madeOf F s \<Longrightarrow> madeOf F (f @ s)"

section \<open>Evaluation\<close>

lemmas inline_defs = applyInlineFormatting_def escape_def replaceChar_def matchBold_def
  matchItalic_def matchStrike_def matchCode_def matchLink_def lit_def lazyPlus_def js_def ch_def
  isDot_def isLineTerminator_def strongOpen_def strongClose_def emOpen_def emClose_def
  delOpen_def delClose_def codeOpen_def codeClose_def aOpen_def aMid_def aClose_def

lemmas match_defs = headingMatch_def blockquoteMatch_def ruleMatch_def ulMatch_def olMatch_def
  paragraphBreak_def spacesPlus_def dotStar_def isSpace_def isDigit_def isRuleChar_def trim_def
  numeral_3_eq_3

lemmas block_defs = renderSimpleMarkdown_def initial_def loop.simps step_def
  closeListIfNeeded_def quoteLoop.simps paragraphLoop.simps Let_def headingMarkup_def
  levelDigit_def headingSize_def blockquoteOpen_def blockquoteClose_def hrMarkup_def ulOpen_def
  olOpen_def liMarkup_def pOpen_def pClose_def

section \<open>Line patterns: what they match\<close>

lemma ch_eq_iff [simp]: "ch a = ch b \<longleftrightarrow> a = b"
  by (simp add: ch_def)

lemma startsWith_iff: "startsWith s d \<longleftrightarrow> (\<exists>t. s = d @ t)"
  by (induction s d rule: startsWith.induct) auto

lemma lit_Some_iff: "lit d s = Some t \<longleftrightarrow> s = d @ t"
  by (auto simp: lit_def startsWith_iff)

lemma lit_append [simp]: "lit d (d @ t) = Some t"
  by (simp add: lit_Some_iff)

lemma hash_not_space [simp]: "\<not> isSpace (ch CHR ''#'')"
  by (simp add: isSpace_def isLineTerminator_def ch_def)

lemma spacesPlus_Cons: "isSpace w \<Longrightarrow> spacesPlus (w # rest) = Some (dropWhile isSpace rest)"
  by (simp add: spacesPlus_def)

lemma spacesPlus_Some:
  "spacesPlus s = Some t \<Longrightarrow> \<exists>w rest. s = w # rest \<and> isSpace w \<and> t = dropWhile isSpace rest"
  by (auto simp: spacesPlus_def split: list.splits if_splits)

lemma matchHashes_Some:
  "matchHashes k line = Some (lv, g) \<Longrightarrow>
     1 \<le> lv \<and> lv \<le> k \<and> (\<exists>w rest. line = replicate lv (ch CHR ''#'') @ w # rest \<and> isSpace w
        \<and> g = dotStar (dropWhile isSpace rest))"
proof (induction k)
  case 0
  then show ?case by simp
next
  case (Suc k)
  show ?case
  proof (cases "take (Suc k) line = replicate (Suc k) (ch CHR ''#'')
       \<and> spacesPlus (drop (Suc k) line) \<noteq> None")
    case True
    then obtain t where t: "spacesPlus (drop (Suc k) line) = Some t" by auto
    with True Suc.prems have lv: "lv = Suc k" "g = dotStar t" by auto
    from spacesPlus_Some[OF t] obtain w rest where
      w: "drop (Suc k) line = w # rest" "isSpace w" "t = dropWhile isSpace rest" by auto
    have "line = take (Suc k) line @ drop (Suc k) line" by simp
    with True w have "line = replicate (Suc k) (ch CHR ''#'') @ w # rest" by metis
    with lv w show ?thesis by auto
  next
    case False
    with Suc.prems have "matchHashes k line = Some (lv, g)"
      by (auto split: if_splits option.splits)
    from Suc.IH[OF this] show ?thesis by auto
  qed
qed

lemma matchHashes_exact:
  assumes "isSpace w" "1 \<le> n" "n \<le> k"
  shows "matchHashes k (replicate n (ch CHR ''#'') @ w # rest)
           = Some (n, dotStar (dropWhile isSpace rest))"
  using assms(3)
proof (induction k)
  case 0
  with assms show ?case by simp
next
  case (Suc k)
  let ?line = "replicate n (ch CHR ''#'') @ w # rest"
  show ?case
  proof (cases "n = Suc k")
    case True
    then show ?thesis using assms(1) by (simp add: spacesPlus_Cons)
  next
    case False
    with Suc.prems have nk: "n \<le> k" by simp
    have "take (Suc k) ?line \<noteq> replicate (Suc k) (ch CHR ''#'')"
    proof
      assume eq: "take (Suc k) ?line = replicate (Suc k) (ch CHR ''#'')"
      have "w \<in> set (take (Suc k) ?line)" using nk by (simp add: Suc_diff_le)
      then have "w \<in> set (replicate (Suc k) (ch CHR ''#''))" by (simp only: eq)
      then have "w = ch CHR ''#''" by auto
      with assms(1) show False by simp
    qed
    then show ?thesis using Suc.IH[OF nk] by simp
  qed
qed

lemma matchHashes_too_many:
  "k < n \<Longrightarrow> matchHashes k (replicate n (ch CHR ''#'') @ rest) = None"
proof (induction k)
  case 0
  then show ?case by simp
next
  case (Suc k)
  then have "drop (Suc k) (replicate n (ch CHR ''#'') @ rest)
      = ch CHR ''#'' # replicate (n - Suc k - 1) (ch CHR ''#'') @ rest"
    by (cases "n - Suc k") auto
  then have "spacesPlus (drop (Suc k) (replicate n (ch CHR ''#'') @ rest)) = None"
    by (simp add: spacesPlus_def)
  with Suc show ?case by simp
qed

lemma headingMatch_Some:
  "headingMatch line = Some (lv, g) \<Longrightarrow>
     1 \<le> lv \<and> lv \<le> 3 \<and> (\<exists>w rest. line = replicate lv (ch CHR ''#'') @ w # rest \<and> isSpace w
        \<and> g = dotStar (dropWhile isSpace rest))"
  unfolding headingMatch_def by (rule matchHashes_Some)

lemma headingMatch_first:
  "headingMatch line = Some (lv, g) \<Longrightarrow> \<exists>t. line = ch CHR ''#'' # t"
  by (drule headingMatch_Some) (auto simp: Cons_replicate_eq dest!: le_Suc_ex)

lemma blockquoteMatch_first:
  \<open>blockquoteMatch line = Some g \<Longrightarrow> \<exists>t. line = ch CHR ''>'' # t\<close>
  by (auto simp: blockquoteMatch_def lit_Some_iff js_def ch_def split: option.splits)

lemma ruleMatch_iff:
  "ruleMatch line \<longleftrightarrow> 3 \<le> length line \<and> (\<forall>c\<in>set line. isRuleChar c)"
proof (cases "\<forall>c\<in>set line. isRuleChar c")
  case True
  then have tw: "takeWhile isRuleChar line = line" and dw: "dropWhile isRuleChar line = []"
    by (simp_all add: takeWhile_eq_all_conv)
  show ?thesis unfolding ruleMatch_def tw dw using True by simp
next
  case False
  then have "dropWhile isRuleChar line \<noteq> []" by (simp add: dropWhile_eq_Nil_conv)
  with False show ?thesis by (auto simp: ruleMatch_def)
qed


lemma dash_star_facts [simp]:
  "\<not> isSpace (ch CHR ''-'')" "\<not> isSpace (ch CHR ''*'')" "\<not> isSpace (ch CHR ''_'')"
  "\<not> isSpace (ch CHR ''>'')" "\<not> isDigit (ch CHR ''-'')" "\<not> isDigit (ch CHR ''*'')"
  "\<not> isDigit (ch CHR ''_'')" "\<not> isDigit (ch CHR ''#'')" "\<not> isDigit (ch CHR ''>'')"
  "\<not> isRuleChar (ch CHR ''#'')" "\<not> isRuleChar (ch CHR ''>'')"
  by (simp_all add: isSpace_def isLineTerminator_def isDigit_def isRuleChar_def ch_def)




lemma ulMatch_hash [simp]: "ulMatch (ch CHR ''#'' # t) = None" "ulMatch (ch CHR ''>'' # t) = None"
  by (simp_all add: ulMatch_def)

lemma olMatch_hash [simp]: "olMatch (ch CHR ''#'' # t) = None" "olMatch (ch CHR ''>'' # t) = None"
  by (simp_all add: olMatch_def)

lemma ruleMatch_first: "ruleMatch line \<Longrightarrow> \<exists>a b t. line = a # b # t \<and> isRuleChar a \<and> isRuleChar b"
  by (cases line; cases "tl line") (auto simp: ruleMatch_iff)



lemma ruleMatch_headingMatch: "ruleMatch line \<Longrightarrow> headingMatch line = None"
proof (rule ccontr)
  assume r: "ruleMatch line" and "headingMatch line \<noteq> None"
  then obtain lv g where "headingMatch line = Some (lv, g)" by auto
  from headingMatch_first[OF this] ruleMatch_first[OF r] show False by auto
qed

lemma ruleMatch_blockquoteMatch: "ruleMatch line \<Longrightarrow> blockquoteMatch line = None"
proof (rule ccontr)
  assume r: "ruleMatch line" and "blockquoteMatch line \<noteq> None"
  then obtain g where "blockquoteMatch line = Some g" by auto
  from blockquoteMatch_first[OF this] ruleMatch_first[OF r] show False by auto
qed








section \<open>Inline rules: characters they do not look at\<close>

lemma matchBold_None [simp]:
  "matchBold [] = None"
  "x \<noteq> ch CHR ''*'' \<Longrightarrow> x \<noteq> ch CHR ''_'' \<Longrightarrow> matchBold (x # t) = None"
  by (simp_all add: matchBold_def lit_def js_def ch_def)

lemma matchItalic_None [simp]:
  "matchItalic [] = None"
  "x \<noteq> ch CHR ''*'' \<Longrightarrow> x \<noteq> ch CHR ''_'' \<Longrightarrow> matchItalic (x # t) = None"
  by (simp_all add: matchItalic_def lit_def js_def ch_def)

lemma matchStrike_None [simp]:
  "matchStrike [] = None"
  "x \<noteq> ch CHR ''~'' \<Longrightarrow> matchStrike (x # t) = None"
  by (simp_all add: matchStrike_def lit_def js_def ch_def)

lemma matchCode_None [simp]:
  \<open>matchCode [] = None\<close>
  \<open>x \<noteq> ch CHR ''`'' \<Longrightarrow> matchCode (x # t) = None\<close>
  by (simp_all add: matchCode_def lit_def js_def ch_def)

lemma matchLink_None [simp]:
  "matchLink [] = None"
  "x \<noteq> ch CHR ''['' \<Longrightarrow> matchLink (x # t) = None"
  by (simp_all add: matchLink_def lit_def js_def ch_def)

lemma replaceGlobal_skip:
  "(\<And>x t. x \<in> set f \<Longrightarrow> m (x # t) = None) \<Longrightarrow> replaceGlobal m (f @ s) = f @ replaceGlobal m s"
  by (induction f) auto


lemma escape_Nil [simp]: "escape [] = []"
  by (simp add: escape_def replaceChar_def)

lemma replaceChar_append: "replaceChar c r (a @ b) = replaceChar c r a @ replaceChar c r b"
  by (simp add: replaceChar_def)

lemma escape_append: "escape (a @ b) = escape a @ escape b"
  by (simp add: escape_def replaceChar_append)

lemma escape_Cons: "escape (c # s) = escapeChar c @ escape s"
proof -
  have "escape [c] = escapeChar c"
    by (simp add: escape_def replaceChar_def escapeChar_def js_def ch_def)
  then show ?thesis using escape_append[of "[c]" s] by simp
qed

lemma escape_concat: "escape s = concat (map escapeChar s)"
  by (induction s) (simp_all add: escape_Cons)

lemma escape_plain: "c \<notin> reserved \<Longrightarrow> escape (c # s) = c # escape s"
  by (simp add: escape_Cons escapeChar_def reserved_def)

text \<open>A character that no inline rule looks at is copied.\<close>

lemma applyInlineFormatting_plain_Cons:
  assumes "c \<notin> reserved"
    and \<open>c \<notin> {ch CHR ''*'', ch CHR ''_'', ch CHR ''~'', ch CHR ''`'', ch CHR ''[''}\<close>
  shows "applyInlineFormatting (c # s) = c # applyInlineFormatting s"
  using assms by (simp add: applyInlineFormatting_def escape_plain)

lemma applyInlineFormatting_plain_prefix:
  assumes "\<And>c. c \<in> set p \<Longrightarrow> c \<notin> reserved
      \<and> c \<notin> {ch CHR ''*'', ch CHR ''_'', ch CHR ''~'', ch CHR ''`'', ch CHR ''[''}"
  shows "applyInlineFormatting (p @ s) = p @ applyInlineFormatting s"
  using assms by (induction p) (simp_all add: applyInlineFormatting_plain_Cons)

lemma paragraphLoop_prefix:
  "paragraphLoop lines n pl = (n', pl') \<Longrightarrow> \<exists>more. pl' = pl @ more"
proof (induction lines n pl rule: paragraphLoop.induct)
  case (1 lines n pl)
  let ?go = "n + 1 < length lines \<and> \<not> (trim (lines ! (n + 1)) = [] \<or> paragraphBreak (lines ! (n + 1)))"
  show ?case
  proof (cases ?go)
    case True
    with "1.prems" have "paragraphLoop lines (n + 1) (pl @ [lines ! (n + 1)]) = (n', pl')"
      by (subst (asm) paragraphLoop.simps) (simp add: Let_def)
    from "1.IH"[OF _ refl _ this] True show ?thesis by auto
  next
    case False
    with "1.prems" have "pl' = pl"
      by (subst (asm) paragraphLoop.simps) (auto simp: Let_def split: if_splits)
    then show ?thesis by simp
  qed
qed

lemma join_Cons: "\<exists>t. join (x # xs) = x @ t"
  by (cases xs) auto

lemma trim_eq_Nil_iff: "trim s = [] \<longleftrightarrow> (\<forall>c\<in>set s. isSpace c)"
proof -
  have "trim s = [] \<longleftrightarrow> (\<forall>c\<in>set (dropWhile isSpace s). isSpace c)"
    by (simp add: trim_def dropWhile_eq_Nil_conv)
  also have "\<dots> \<longleftrightarrow> (\<forall>c\<in>set s. isSpace c)"
  proof
    assume a: "\<forall>c\<in>set (dropWhile isSpace s). isSpace c"
    show "\<forall>c\<in>set s. isSpace c"
    proof (cases "dropWhile isSpace s")
      case Nil
      then show ?thesis by (simp add: dropWhile_eq_Nil_conv)
    next
      case (Cons x xs)
      then have "\<not> isSpace x" using hd_dropWhile[of isSpace s] by auto
      with a Cons show ?thesis by simp
    qed
  next
    assume "\<forall>c\<in>set s. isSpace c"
    then show "\<forall>c\<in>set (dropWhile isSpace s). isSpace c"
      using set_dropWhileD by fastforce
  qed
  finally show ?thesis .
qed

section \<open>The iterations of the loop\<close>

lemma quoteLoop_bounds:
  "quoteLoop lines n q = (n', q') \<Longrightarrow> n \<le> n' \<and> (n < length lines \<longrightarrow> n' < length lines)"
proof (induction lines n q rule: quoteLoop.induct)
  case (1 lines n q)
  show ?case
  proof (cases "n + 1 < length lines \<and> startsWith (lines ! (n + 1)) (js ''>'')")
    case True
    with "1.prems" have "quoteLoop lines (n + 1)
        (q @ [applyInlineFormatting (trim (drop 1 (lines ! (n + 1))))]) = (n', q')"
      by (subst (asm) quoteLoop.simps) simp
    from "1.IH"[OF True this] True show ?thesis by simp
  next
    case False
    with "1.prems" have "n' = n" by (subst (asm) quoteLoop.simps) auto
    then show ?thesis by simp
  qed
qed

lemma paragraphLoop_bounds:
  "paragraphLoop lines n p = (n', p') \<Longrightarrow> n \<le> n' \<and> (n < length lines \<longrightarrow> n' < length lines)"
proof (induction lines n p rule: paragraphLoop.induct)
  case (1 lines n p)
  let ?go = "n + 1 < length lines \<and> \<not> (trim (lines ! (n + 1)) = [] \<or> paragraphBreak (lines ! (n + 1)))"
  show ?case
  proof (cases ?go)
    case True
    with "1.prems" have "paragraphLoop lines (n + 1) (p @ [lines ! (n + 1)]) = (n', p')"
      by (subst (asm) paragraphLoop.simps) (simp add: Let_def)
    from "1.IH"[OF _ refl _ this] True show ?thesis by simp
  next
    case False
    with "1.prems" have "n' = n"
      by (subst (asm) paragraphLoop.simps) (auto simp: Let_def split: if_splits)
    then show ?thesis by simp
  qed
qed

lemma closeListIfNeeded_i [simp]: "i (closeListIfNeeded st) = i st"
  by (simp add: closeListIfNeeded_def split: option.splits)

lemma closeListIfNeeded_inList [simp]: "inList (closeListIfNeeded st) = None"
  by (simp add: closeListIfNeeded_def split: option.splits)

lemma step_heading:
  "headingMatch (lines ! i st) = Some (lv, g) \<Longrightarrow>
   step lines st = (closeListIfNeeded st)\<lparr>html := html (closeListIfNeeded st)
      @ headingMarkup lv (applyInlineFormatting g), i := i st + 1\<rparr>"
  by (simp add: step_def Let_def)

lemma step_blockquote:
  "headingMatch (lines ! i st) = None \<Longrightarrow> blockquoteMatch (lines ! i st) = Some g \<Longrightarrow>
   quoteLoop lines (i st) [applyInlineFormatting g] = (n, qc) \<Longrightarrow>
   step lines st = (closeListIfNeeded st)\<lparr>html := html (closeListIfNeeded st)
      @ blockquoteOpen @ join qc @ blockquoteClose, i := n + 1\<rparr>"
  by (simp add: step_def Let_def)

lemma step_rule:
  "headingMatch (lines ! i st) = None \<Longrightarrow> blockquoteMatch (lines ! i st) = None \<Longrightarrow>
   ruleMatch (lines ! i st) \<Longrightarrow>
   step lines st = (closeListIfNeeded st)\<lparr>html := html (closeListIfNeeded st) @ hrMarkup,
      i := i st + 1\<rparr>"
  by (simp add: step_def Let_def)

lemma step_ul:
  "headingMatch (lines ! i st) = None \<Longrightarrow> blockquoteMatch (lines ! i st) = None \<Longrightarrow>
   \<not> ruleMatch (lines ! i st) \<Longrightarrow> ulMatch (lines ! i st) = Some g \<Longrightarrow>
   step lines st =
     (if inList st \<noteq> Some UL
      then (closeListIfNeeded st)\<lparr>html := html (closeListIfNeeded st) @ ulOpen
              @ liMarkup (applyInlineFormatting g), inList := Some UL, i := i st + 1\<rparr>
      else st\<lparr>html := html st @ liMarkup (applyInlineFormatting g), i := i st + 1\<rparr>)"
  by (simp add: step_def Let_def)

lemma step_ol:
  "headingMatch (lines ! i st) = None \<Longrightarrow> blockquoteMatch (lines ! i st) = None \<Longrightarrow>
   \<not> ruleMatch (lines ! i st) \<Longrightarrow> ulMatch (lines ! i st) = None \<Longrightarrow>
   olMatch (lines ! i st) = Some g \<Longrightarrow>
   step lines st =
     (if inList st \<noteq> Some OL
      then (closeListIfNeeded st)\<lparr>html := html (closeListIfNeeded st) @ olOpen
              @ liMarkup (applyInlineFormatting g), inList := Some OL, i := i st + 1\<rparr>
      else st\<lparr>html := html st @ liMarkup (applyInlineFormatting g), i := i st + 1\<rparr>)"
  by (simp add: step_def Let_def)

lemma step_paragraph:
  "headingMatch (lines ! i st) = None \<Longrightarrow> blockquoteMatch (lines ! i st) = None \<Longrightarrow>
   \<not> ruleMatch (lines ! i st) \<Longrightarrow> ulMatch (lines ! i st) = None \<Longrightarrow>
   olMatch (lines ! i st) = None \<Longrightarrow> trim (lines ! i st) \<noteq> [] \<Longrightarrow>
   paragraphLoop lines (i st) [lines ! i st] = (n, pl) \<Longrightarrow>
   step lines st = (closeListIfNeeded st)\<lparr>html := html (closeListIfNeeded st)
      @ pOpen @ applyInlineFormatting (join pl) @ pClose, i := n + 1\<rparr>"
  by (simp add: step_def Let_def)

lemma step_blank:
  "headingMatch (lines ! i st) = None \<Longrightarrow> blockquoteMatch (lines ! i st) = None \<Longrightarrow>
   \<not> ruleMatch (lines ! i st) \<Longrightarrow> ulMatch (lines ! i st) = None \<Longrightarrow>
   olMatch (lines ! i st) = None \<Longrightarrow> trim (lines ! i st) = [] \<Longrightarrow>
   step lines st = (closeListIfNeeded st)\<lparr>i := i st + 1\<rparr>"
  by (simp add: step_def Let_def)

text \<open>The branches of one iteration, in the order of the source.\<close>

lemma step_cases [case_names heading blockquote hrule ulist olist para blank]:
  assumes "\<And>lv g. headingMatch (lines ! i st) = Some (lv, g) \<Longrightarrow> R"
    and "\<And>g n qc. headingMatch (lines ! i st) = None \<Longrightarrow> blockquoteMatch (lines ! i st) = Some g \<Longrightarrow>
           quoteLoop lines (i st) [applyInlineFormatting g] = (n, qc) \<Longrightarrow> R"
    and "headingMatch (lines ! i st) = None \<Longrightarrow> blockquoteMatch (lines ! i st) = None \<Longrightarrow>
           ruleMatch (lines ! i st) \<Longrightarrow> R"
    and "\<And>g. headingMatch (lines ! i st) = None \<Longrightarrow> blockquoteMatch (lines ! i st) = None \<Longrightarrow>
           \<not> ruleMatch (lines ! i st) \<Longrightarrow> ulMatch (lines ! i st) = Some g \<Longrightarrow> R"
    and "\<And>g. headingMatch (lines ! i st) = None \<Longrightarrow> blockquoteMatch (lines ! i st) = None \<Longrightarrow>
           \<not> ruleMatch (lines ! i st) \<Longrightarrow> ulMatch (lines ! i st) = None \<Longrightarrow>
           olMatch (lines ! i st) = Some g \<Longrightarrow> R"
    and "\<And>n pl. headingMatch (lines ! i st) = None \<Longrightarrow> blockquoteMatch (lines ! i st) = None \<Longrightarrow>
           \<not> ruleMatch (lines ! i st) \<Longrightarrow> ulMatch (lines ! i st) = None \<Longrightarrow>
           olMatch (lines ! i st) = None \<Longrightarrow> trim (lines ! i st) \<noteq> [] \<Longrightarrow>
           paragraphLoop lines (i st) [lines ! i st] = (n, pl) \<Longrightarrow> R"
    and "headingMatch (lines ! i st) = None \<Longrightarrow> blockquoteMatch (lines ! i st) = None \<Longrightarrow>
           \<not> ruleMatch (lines ! i st) \<Longrightarrow> ulMatch (lines ! i st) = None \<Longrightarrow>
           olMatch (lines ! i st) = None \<Longrightarrow> trim (lines ! i st) = [] \<Longrightarrow> R"
  shows R
proof (cases "headingMatch (lines ! i st)")
  case (Some a)
  then show ?thesis using assms(1) by (cases a) auto
next
  case h: None
  show ?thesis
  proof (cases "blockquoteMatch (lines ! i st)")
    case (Some g)
    then show ?thesis
      using assms(2)[OF h Some] by (cases "quoteLoop lines (i st) [applyInlineFormatting g]") auto
  next
    case q: None
    show ?thesis
    proof (cases "ruleMatch (lines ! i st)")
      case True
      then show ?thesis using assms(3) h q by blast
    next
      case r: False
      show ?thesis
      proof (cases "ulMatch (lines ! i st)")
        case (Some g)
        then show ?thesis using assms(4) h q r by blast
      next
        case u: None
        show ?thesis
        proof (cases "olMatch (lines ! i st)")
          case (Some g)
          then show ?thesis using assms(5) h q r u by blast
        next
          case ol: None
          show ?thesis
          proof (cases "trim (lines ! i st) = []")
            case True
            then show ?thesis using assms(7) h q r u ol by blast
          next
            case False
            then show ?thesis
              using assms(6)[OF h q r u ol False]
              by (cases "paragraphLoop lines (i st) [lines ! i st]") auto
          qed
        qed
      qed
    qed
  qed
qed

lemma step_i:
  assumes "i st < length lines"
  shows "i st < i (step lines st) \<and> i (step lines st) \<le> length lines"
proof (cases rule: step_cases[of lines st])
  case (heading lv g)
  then show ?thesis using assms by (simp add: step_heading)
next
  case (blockquote g n qc)
  then show ?thesis using assms quoteLoop_bounds[OF blockquote(3)]
    by (simp add: step_blockquote)
next
  case hrule
  then show ?thesis using assms by (simp add: step_rule)
next
  case (ulist g)
  then show ?thesis using assms by (simp add: step_ul)
next
  case (olist g)
  then show ?thesis using assms by (simp add: step_ol)
next
  case (para n pl)
  then show ?thesis using assms paragraphLoop_bounds[OF para(7)]
    by (simp add: step_paragraph)
next
  case blank
  then show ?thesis using assms by (simp add: step_blank)
qed

lemma loop_rule:
  assumes "P st" and "\<And>s. P s \<Longrightarrow> i s < length lines \<Longrightarrow> P (step lines s)"
  shows "\<exists>st'. loop lines st = Some st' \<and> P st' \<and> length lines \<le> i st'"
  using assms(1)
proof (induction "length lines - i st" arbitrary: st rule: less_induct)
  case less
  show ?case
  proof (cases "i st < length lines")
    case True
    have "length lines - i (step lines st) < length lines - i st"
      using step_i[OF True] by arith
    from less.hyps[OF this assms(2)[OF less.prems True]]
    show ?thesis using True by (subst loop.simps) simp
  next
    case False
    then show ?thesis using less.prems by (subst loop.simps) simp
  qed
qed


section \<open>The blocks of a run\<close>

lemma emit_closeBlocks:
  "html (closeListIfNeeded st) = html st @ concat (map emit (closeBlocks (inList st)))"
  by (simp add: closeListIfNeeded_def closeBlocks_def split: option.splits)

lemma wellNested_closeBlocks:
  "wellNested None bs \<Longrightarrow> wellNested k (closeBlocks k @ bs)"
  by (cases k) (simp_all add: closeBlocks_def)

lemma wellNested_closeBlocks_Nil: "wellNested k (closeBlocks k)"
  by (cases k) (simp_all add: closeBlocks_def)

lemma emit_stepBlocks:
  "html (step lines st) = html st @ concat (map emit (stepBlocks lines st))"
proof (cases rule: step_cases[of lines st])
  case (heading lv g)
  then show ?thesis
    by (simp add: step_heading stepBlocks_def emit_closeBlocks)
next
  case (blockquote g n qc)
  then show ?thesis
    by (simp add: step_blockquote stepBlocks_def emit_closeBlocks)
next
  case hrule
  then show ?thesis
    by (simp add: step_rule stepBlocks_def emit_closeBlocks)
next
  case (ulist g)
  then show ?thesis
    by (simp add: step_ul stepBlocks_def emit_closeBlocks)
next
  case (olist g)
  then show ?thesis
    by (simp add: step_ol stepBlocks_def emit_closeBlocks)
next
  case (para n pl)
  then show ?thesis
    by (simp add: step_paragraph stepBlocks_def emit_closeBlocks)
next
  case blank
  then show ?thesis
    by (simp add: step_blank stepBlocks_def emit_closeBlocks)
qed

lemma wellNested_stepBlocks:
  assumes "wellNested (inList (step lines st)) bs"
  shows "wellNested (inList st) (stepBlocks lines st @ bs)"
proof (cases rule: step_cases[of lines st])
  case (heading lv g)
  with assms show ?thesis
    by (simp add: step_heading stepBlocks_def wellNested_closeBlocks)
next
  case (blockquote g n qc)
  with assms show ?thesis
    by (simp add: step_blockquote stepBlocks_def wellNested_closeBlocks)
next
  case hrule
  with assms show ?thesis
    by (simp add: step_rule stepBlocks_def wellNested_closeBlocks)
next
  case (ulist g)
  with assms show ?thesis
    by (cases "inList st") (auto simp: step_ul stepBlocks_def closeBlocks_def split: if_splits)
next
  case (olist g)
  with assms show ?thesis
    by (cases "inList st") (auto simp: step_ol stepBlocks_def closeBlocks_def split: if_splits)
next
  case (para n pl)
  with assms show ?thesis
    by (simp add: step_paragraph stepBlocks_def wellNested_closeBlocks)
next
  case blank
  with assms show ?thesis
    by (simp add: step_blank stepBlocks_def wellNested_closeBlocks)
qed

lemma loop_blocksFrom:
  "length lines - i st \<le> n \<Longrightarrow>
   \<exists>st'. loop lines st = Some st'
     \<and> html (closeListIfNeeded st') = html st @ concat (map emit (blocksFrom n lines st))
     \<and> wellNested (inList st) (blocksFrom n lines st)"
proof (induction n arbitrary: st)
  case 0
  then have "\<not> i st < length lines" by simp
  then show ?case
    by (subst loop.simps) (simp add: emit_closeBlocks wellNested_closeBlocks_Nil)
next
  case (Suc n)
  show ?case
  proof (cases "i st < length lines")
    case True
    from step_i[OF True] Suc.prems have "length lines - i (step lines st) \<le> n" by arith
    from Suc.IH[OF this] obtain st' where st':
      "loop lines (step lines st) = Some st'"
      "html (closeListIfNeeded st')
         = html (step lines st) @ concat (map emit (blocksFrom n lines (step lines st)))"
      "wellNested (inList (step lines st)) (blocksFrom n lines (step lines st))"
      by blast
    have "loop lines st = Some st'"
      using True st'(1) by (subst loop.simps) simp
    moreover have "html (closeListIfNeeded st')
        = html st @ concat (map emit (blocksFrom (Suc n) lines st))"
      using True st'(2) by (simp add: emit_stepBlocks)
    moreover have "wellNested (inList st) (blocksFrom (Suc n) lines st)"
      using True wellNested_stepBlocks[OF st'(3)] by simp
    ultimately show ?thesis by blast
  next
    case False
    then show ?thesis
      by (subst loop.simps) (simp add: emit_closeBlocks wellNested_closeBlocks_Nil)
  qed
qed

lemma quoteLoop_consumed:
  "quoteLoop lines n q = (n', q') \<Longrightarrow> n < j \<Longrightarrow> j \<le> n' \<Longrightarrow> startsWith (lines ! j) (js ''>'')"
proof (induction lines n q rule: quoteLoop.induct)
  case (1 lines n q)
  show ?case
  proof (cases "n + 1 < length lines \<and> startsWith (lines ! (n + 1)) (js ''>'')")
    case True
    with "1.prems"(1) have r: "quoteLoop lines (n + 1)
        (q @ [applyInlineFormatting (trim (drop 1 (lines ! (n + 1))))]) = (n', q')"
      by (subst (asm) quoteLoop.simps) simp
    show ?thesis
    proof (cases "j = n + 1")
      case True
      with \<open>n + 1 < length lines \<and> startsWith (lines ! (n + 1)) (js ''>'')\<close> show ?thesis
        by simp
    next
      case False
      with "1.prems"(2) have "n + 1 < j" by simp
      from "1.IH"[OF True r this "1.prems"(3)] show ?thesis .
    qed
  next
    case False
    with "1.prems"(1) have "n' = n" by (subst (asm) quoteLoop.simps) auto
    with "1.prems" show ?thesis by simp
  qed
qed

lemma paragraphLoop_consumed:
  "paragraphLoop lines n p = (n', p') \<Longrightarrow> n < j \<Longrightarrow> j \<le> n' \<Longrightarrow> \<not> paragraphBreak (lines ! j)"
proof (induction lines n p rule: paragraphLoop.induct)
  case (1 lines n p)
  let ?go = "n + 1 < length lines \<and> \<not> (trim (lines ! (n + 1)) = [] \<or> paragraphBreak (lines ! (n + 1)))"
  show ?case
  proof (cases ?go)
    case True
    with "1.prems"(1) have r: "paragraphLoop lines (n + 1) (p @ [lines ! (n + 1)]) = (n', p')"
      by (subst (asm) paragraphLoop.simps) (simp add: Let_def)
    show ?thesis
    proof (cases "j = n + 1")
      case j: True
      with True show ?thesis by simp
    next
      case False
      with "1.prems"(2) have "n + 1 < j" by simp
      from "1.IH"[OF _ refl _ r this "1.prems"(3)] True show ?thesis by simp
    qed
  next
    case False
    with "1.prems"(1) have "n' = n"
      by (subst (asm) paragraphLoop.simps) (auto simp: Let_def split: if_splits)
    with "1.prems" show ?thesis by simp
  qed
qed

lemma blockquoteMatch_None_iff: "blockquoteMatch line = None \<longleftrightarrow> \<not> startsWith line (js ''>'')"
  by (simp add: blockquoteMatch_def lit_def)

text \<open>
  A line that the look-ahead of the paragraph loop stops at and that does not begin with
  \<^verbatim>\<open>>\<close> is consumed by no inner loop: the outer loop does not step over it.
\<close>

lemma step_no_skip:
  assumes "i st < k" and "paragraphBreak (lines ! k)" and "blockquoteMatch (lines ! k) = None"
  shows "i (step lines st) \<le> k"
proof (cases rule: step_cases[of lines st])
  case (heading lv g)
  then show ?thesis using assms by (simp add: step_heading)
next
  case (blockquote g n qc)
  have "n < k"
  proof (rule ccontr)
    assume "\<not> n < k"
    with assms(1) quoteLoop_consumed[OF blockquote(3), of k] assms(3)
    show False by (simp add: blockquoteMatch_None_iff)
  qed
  then show ?thesis by (simp add: step_blockquote[OF blockquote])
next
  case hrule
  then show ?thesis using assms by (simp add: step_rule)
next
  case (ulist g)
  then show ?thesis using assms by (simp add: step_ul)
next
  case (olist g)
  then show ?thesis using assms by (simp add: step_ol)
next
  case (para n pl)
  have "n < k"
  proof (rule ccontr)
    assume "\<not> n < k"
    with assms(1) paragraphLoop_consumed[OF para(7), of k] assms(2)
    show False by simp
  qed
  then show ?thesis by (simp add: step_paragraph[OF para])
next
  case blank
  then show ?thesis using assms by (simp add: step_blank)
qed

text \<open>So the run of the loop comes to every such line, with fuel left for the rest.\<close>

lemma blocksFrom_reach:
  assumes "k < length lines" and "paragraphBreak (lines ! k)"
    and "blockquoteMatch (lines ! k) = None"
  shows "i st \<le> k \<Longrightarrow> length lines - i st \<le> n \<Longrightarrow>
    \<exists>pre s m. blocksFrom n lines st = pre @ stepBlocks lines s @ blocksFrom m lines (step lines s)
       \<and> i s = k \<and> length lines - i (step lines s) \<le> m"
proof (induction n arbitrary: st)
  case 0
  with assms(1) show ?case by simp
next
  case (Suc n)
  from Suc.prems assms(1) have lt: "i st < length lines" by simp
  from step_i[OF lt] Suc.prems(2) have fuel: "length lines - i (step lines st) \<le> n" by arith
  show ?case
  proof (cases "i st = k")
    case True
    have "blocksFrom (Suc n) lines st = [] @ stepBlocks lines st @ blocksFrom n lines (step lines st)"
      using lt by simp
    with True fuel show ?thesis by blast
  next
    case False
    with Suc.prems(1) have "i st < k" by simp
    from step_no_skip[OF this assms(2,3)] have "i (step lines st) \<le> k" .
    from Suc.IH[OF this fuel] obtain pre s m where
      "blocksFrom n lines (step lines st)
         = pre @ stepBlocks lines s @ blocksFrom m lines (step lines s)"
      "i s = k" "length lines - i (step lines s) \<le> m" by blast
    then have "blocksFrom (Suc n) lines st
        = (stepBlocks lines st @ pre) @ stepBlocks lines s @ blocksFrom m lines (step lines s)
        \<and> i s = k \<and> length lines - i (step lines s) \<le> m"
      using lt by simp
    then show ?thesis by blast
  qed
qed

lemma stepBlocks_heading:
  "headingMatch (lines ! i st) = Some (lv, g) \<Longrightarrow>
   stepBlocks lines st = closeBlocks (inList st) @ [Heading lv (applyInlineFormatting g)]"
  by (simp add: stepBlocks_def)

lemma stepBlocks_blockquote:
  "headingMatch (lines ! i st) = None \<Longrightarrow> blockquoteMatch (lines ! i st) = Some g \<Longrightarrow>
   quoteLoop lines (i st) [applyInlineFormatting g] = (n, qc) \<Longrightarrow>
   stepBlocks lines st = closeBlocks (inList st) @ [Blockquote qc]"
  by (simp add: stepBlocks_def)

lemma stepBlocks_rule:
  "headingMatch (lines ! i st) = None \<Longrightarrow> blockquoteMatch (lines ! i st) = None \<Longrightarrow>
   ruleMatch (lines ! i st) \<Longrightarrow> stepBlocks lines st = closeBlocks (inList st) @ [Rule]"
  by (simp add: stepBlocks_def)

lemma stepBlocks_ul:
  "headingMatch (lines ! i st) = None \<Longrightarrow> blockquoteMatch (lines ! i st) = None \<Longrightarrow>
   \<not> ruleMatch (lines ! i st) \<Longrightarrow> ulMatch (lines ! i st) = Some g \<Longrightarrow>
   stepBlocks lines st =
     (if inList st \<noteq> Some UL then closeBlocks (inList st) @ [ListOpen UL] else [])
       @ [ListItem (applyInlineFormatting g)]"
  by (simp add: stepBlocks_def)

lemma stepBlocks_ol:
  "headingMatch (lines ! i st) = None \<Longrightarrow> blockquoteMatch (lines ! i st) = None \<Longrightarrow>
   \<not> ruleMatch (lines ! i st) \<Longrightarrow> ulMatch (lines ! i st) = None \<Longrightarrow>
   olMatch (lines ! i st) = Some g \<Longrightarrow>
   stepBlocks lines st =
     (if inList st \<noteq> Some OL then closeBlocks (inList st) @ [ListOpen OL] else [])
       @ [ListItem (applyInlineFormatting g)]"
  by (simp add: stepBlocks_def)

lemma stepBlocks_paragraph:
  "headingMatch (lines ! i st) = None \<Longrightarrow> blockquoteMatch (lines ! i st) = None \<Longrightarrow>
   \<not> ruleMatch (lines ! i st) \<Longrightarrow> ulMatch (lines ! i st) = None \<Longrightarrow>
   olMatch (lines ! i st) = None \<Longrightarrow> trim (lines ! i st) \<noteq> [] \<Longrightarrow>
   paragraphLoop lines (i st) [lines ! i st] = (n, pl) \<Longrightarrow>
   stepBlocks lines st = closeBlocks (inList st) @ [Paragraph (applyInlineFormatting (join pl))]"
  by (simp add: stepBlocks_def)

lemma stepBlocks_blank:
  "headingMatch (lines ! i st) = None \<Longrightarrow> blockquoteMatch (lines ! i st) = None \<Longrightarrow>
   \<not> ruleMatch (lines ! i st) \<Longrightarrow> ulMatch (lines ! i st) = None \<Longrightarrow>
   olMatch (lines ! i st) = None \<Longrightarrow> trim (lines ! i st) = [] \<Longrightarrow>
   stepBlocks lines st = closeBlocks (inList st)"
  by (simp add: stepBlocks_def)

lemma closeBlocks_set: "b \<in> set (closeBlocks k) \<Longrightarrow> \<exists>x. b = ListClose x"
  by (auto simp: closeBlocks_def split: option.splits)

lemma Rule_in_stepBlocks: "Rule \<in> set (stepBlocks lines st) \<longleftrightarrow> ruleMatch (lines ! i st)"
proof (cases rule: step_cases[of lines st])
  case (heading lv g)
  from headingMatch_first[OF heading] have "\<not> ruleMatch (lines ! i st)"
    by (auto simp: ruleMatch_iff)
  then show ?thesis using closeBlocks_set[of Rule] by (auto simp: stepBlocks_heading[OF heading])
next
  case (blockquote g n qc)
  from blockquoteMatch_first[OF blockquote(2)] have "\<not> ruleMatch (lines ! i st)"
    by (auto simp: ruleMatch_iff)
  then show ?thesis
    using closeBlocks_set[of Rule] by (auto simp: stepBlocks_blockquote[OF blockquote])
next
  case hrule
  then show ?thesis by (simp add: stepBlocks_rule)
next
  case (ulist g)
  then show ?thesis using closeBlocks_set[of Rule] by (auto simp: stepBlocks_ul)
next
  case (olist g)
  then show ?thesis using closeBlocks_set[of Rule] by (auto simp: stepBlocks_ol)
next
  case (para n pl)
  then show ?thesis using closeBlocks_set[of Rule] by (auto simp: stepBlocks_paragraph)
next
  case blank
  then show ?thesis using closeBlocks_set[of Rule] by (auto simp: stepBlocks_blank)
qed

lemma Heading_in_stepBlocks:
  "Heading lv c \<in> set (stepBlocks lines st) \<longleftrightarrow>
   (\<exists>g. headingMatch (lines ! i st) = Some (lv, g) \<and> c = applyInlineFormatting g)"
proof (cases rule: step_cases[of lines st])
  case (heading lv' g)
  then show ?thesis
    using closeBlocks_set[of "Heading lv c"] by (auto simp: stepBlocks_heading[OF heading])
next
  case (blockquote g n qc)
  then show ?thesis
    using closeBlocks_set[of "Heading lv c"] by (auto simp: stepBlocks_blockquote[OF blockquote])
next
  case hrule
  then show ?thesis using closeBlocks_set[of "Heading lv c"] by (auto simp: stepBlocks_rule)
next
  case (ulist g)
  then show ?thesis using closeBlocks_set[of "Heading lv c"] by (auto simp: stepBlocks_ul)
next
  case (olist g)
  then show ?thesis using closeBlocks_set[of "Heading lv c"] by (auto simp: stepBlocks_ol)
next
  case (para n pl)
  then show ?thesis
    using closeBlocks_set[of "Heading lv c"] by (auto simp: stepBlocks_paragraph)
next
  case blank
  then show ?thesis using closeBlocks_set[of "Heading lv c"] by (auto simp: stepBlocks_blank)
qed

text \<open>Every block of the run was emitted by an iteration at some line, or closes a list.\<close>

lemma blocksFrom_origin:
  "b \<in> set (blocksFrom n lines st) \<Longrightarrow>
   (\<exists>s. i s < length lines \<and> b \<in> set (stepBlocks lines s)) \<or> (\<exists>x. b = ListClose x)"
proof (induction n arbitrary: st)
  case 0
  then show ?case using closeBlocks_set by auto
next
  case (Suc n)
  show ?case
  proof (cases "i st < length lines")
    case True
    with Suc.prems have "b \<in> set (stepBlocks lines st) \<or> b \<in> set (blocksFrom n lines (step lines st))"
      by simp
    then show ?thesis using True Suc.IH by blast
  next
    case False
    with Suc.prems show ?thesis using closeBlocks_set by auto
  qed
qed

lemma headingMatch_paragraphBreak:
  "headingMatch line = Some (lv, g) \<Longrightarrow> paragraphBreak line \<and> blockquoteMatch line = None"
proof -
  assume h: "headingMatch line = Some (lv, g)"
  from headingMatch_first[OF h] blockquoteMatch_first[of line]
  have "blockquoteMatch line = None" by (cases "blockquoteMatch line") auto
  with h show ?thesis by (simp add: paragraphBreak_def)
qed

lemma ruleMatch_paragraphBreak:
  "ruleMatch line \<Longrightarrow> paragraphBreak line \<and> blockquoteMatch line = None"
  by (auto simp: paragraphBreak_def ruleMatch_def ruleMatch_blockquoteMatch)



lemma blocksOf_reach:
  assumes "text \<noteq> []" and "k < length (split text)" and "paragraphBreak (split text ! k)"
    and "blockquoteMatch (split text ! k) = None"
  shows "\<exists>pre s m. blocksOf text
       = pre @ stepBlocks (split text) s @ blocksFrom m (split text) (step (split text) s)
       \<and> i s = k \<and> length (split text) - i (step (split text) s) \<le> m"
proof -
  have "i initial \<le> k" "length (split text) - i initial \<le> length (split text)"
    by (simp_all add: initial_def)
  from blocksFrom_reach[OF assms(2,3,4) this] assms(1) show ?thesis
    by (simp add: blocksOf_def)
qed

lemma render_blocksOf:
  "renderSimpleMarkdown text = Some (concat (map emit (blocksOf text)))"
proof (cases "text = []")
  case True
  then show ?thesis by (simp add: renderSimpleMarkdown_def blocksOf_def)
next
  case False
  have "length (split text) - i initial \<le> length (split text)" by simp
  from loop_blocksFrom[OF this] False show ?thesis
    by (auto simp: renderSimpleMarkdown_def blocksOf_def initial_def)
qed

lemma blocksOf_origin:
  "b \<in> set (blocksOf text) \<Longrightarrow>
   (\<exists>s. i s < length (split text) \<and> b \<in> set (stepBlocks (split text) s)) \<or> (\<exists>x. b = ListClose x)"
  using blocksFrom_origin[of b "length (split text)" "split text" initial]
  by (cases "text = []") (simp_all add: blocksOf_def)

lemma headingMatch_Nil [simp]: "headingMatch [] = None"
  by (simp add: headingMatch_def numeral_3_eq_3)

lemma ruleMatch_Nil [simp]: "\<not> ruleMatch []"
  by (simp add: ruleMatch_def)

lemma Rule_in_blocksOf:
  "Rule \<in> set (blocksOf text) \<longleftrightarrow> (\<exists>k<length (split text). ruleMatch (split text ! k))"
proof
  assume "Rule \<in> set (blocksOf text)"
  from blocksOf_origin[OF this] obtain s where
    "i s < length (split text)" "Rule \<in> set (stepBlocks (split text) s)" by auto
  then show "\<exists>k<length (split text). ruleMatch (split text ! k)"
    by (auto simp: Rule_in_stepBlocks)
next
  assume "\<exists>k<length (split text). ruleMatch (split text ! k)"
  then obtain k where k: "k < length (split text)" "ruleMatch (split text ! k)" by auto
  then have ne: "text \<noteq> []" by (cases k) auto
  from ruleMatch_paragraphBreak[OF k(2)] blocksOf_reach[OF ne k(1)]
  obtain pre s m where
    "blocksOf text = pre @ stepBlocks (split text) s @ blocksFrom m (split text) (step (split text) s)"
    "i s = k" by blast
  with k(2) show "Rule \<in> set (blocksOf text)" by (simp add: Rule_in_stepBlocks)
qed

lemma Heading_in_blocksOf:
  "Heading lv c \<in> set (blocksOf text) \<longleftrightarrow>
   (\<exists>k<length (split text). \<exists>g. headingMatch (split text ! k) = Some (lv, g)
       \<and> c = applyInlineFormatting g)"
proof
  assume "Heading lv c \<in> set (blocksOf text)"
  from blocksOf_origin[OF this] obtain s where
    "i s < length (split text)" "Heading lv c \<in> set (stepBlocks (split text) s)" by auto
  then show "\<exists>k<length (split text). \<exists>g. headingMatch (split text ! k) = Some (lv, g)
       \<and> c = applyInlineFormatting g"
    by (auto simp: Heading_in_stepBlocks)
next
  assume "\<exists>k<length (split text). \<exists>g. headingMatch (split text ! k) = Some (lv, g)
       \<and> c = applyInlineFormatting g"
  then obtain k g where k: "k < length (split text)"
    "headingMatch (split text ! k) = Some (lv, g)" "c = applyInlineFormatting g" by auto
  then have ne: "text \<noteq> []" by (cases k) auto
  from headingMatch_paragraphBreak[OF k(2)] blocksOf_reach[OF ne k(1)]
  obtain pre s m where
    "blocksOf text = pre @ stepBlocks (split text) s @ blocksFrom m (split text) (step (split text) s)"
    "i s = k" by blast
  with k(2,3) show "Heading lv c \<in> set (blocksOf text)" by (auto simp: Heading_in_stepBlocks)
qed



lemma quoteLoop_all:
  assumes "\<And>x. P (applyInlineFormatting x)"
  shows "quoteLoop lines n qc = (n', qc') \<Longrightarrow> \<forall>x\<in>set qc. P x \<Longrightarrow> \<forall>x\<in>set qc'. P x"
proof (induction lines n qc rule: quoteLoop.induct)
  case (1 lines n qc)
  show ?case
  proof (cases "n + 1 < length lines \<and> startsWith (lines ! (n + 1)) (js ''>'')")
    case True
    with "1.prems"(1) have "quoteLoop lines (n + 1)
        (qc @ [applyInlineFormatting (trim (drop 1 (lines ! (n + 1))))]) = (n', qc')"
      by (subst (asm) quoteLoop.simps) simp
    moreover have "\<forall>x\<in>set (qc @ [applyInlineFormatting (trim (drop 1 (lines ! (n + 1))))]). P x"
      using "1.prems"(2) assms by simp
    ultimately show ?thesis using "1.IH"[OF True] by blast
  next
    case False
    with "1.prems"(1) have "qc' = qc" by (subst (asm) quoteLoop.simps) auto
    with "1.prems" show ?thesis by simp
  qed
qed

lemma closeBlocks_formatted: "b \<in> set (closeBlocks k) \<Longrightarrow> formatted b"
  by (auto simp: closeBlocks_def split: option.splits)

lemma stepBlocks_formatted: "b \<in> set (stepBlocks lines st) \<Longrightarrow> formatted b"
proof (cases rule: step_cases[of lines st])
  case (heading lv g)
  assume "b \<in> set (stepBlocks lines st)"
  then show ?thesis
    using closeBlocks_formatted by (auto simp: stepBlocks_heading[OF heading])
next
  case (blockquote g n qc)
  assume b: "b \<in> set (stepBlocks lines st)"
  have "\<forall>x\<in>set qc. x \<in> range applyInlineFormatting"
    by (rule quoteLoop_all[OF _ blockquote(3)]) simp_all
  with b show ?thesis
    using closeBlocks_formatted by (auto simp: stepBlocks_blockquote[OF blockquote])
next
  case hrule
  assume "b \<in> set (stepBlocks lines st)"
  then show ?thesis
    using closeBlocks_formatted by (auto simp: stepBlocks_rule[OF hrule])
next
  case (ulist g)
  assume "b \<in> set (stepBlocks lines st)"
  then show ?thesis
    using closeBlocks_formatted by (auto simp: stepBlocks_ul[OF ulist] split: if_splits)
next
  case (olist g)
  assume "b \<in> set (stepBlocks lines st)"
  then show ?thesis
    using closeBlocks_formatted by (auto simp: stepBlocks_ol[OF olist] split: if_splits)
next
  case (para n pl)
  assume "b \<in> set (stepBlocks lines st)"
  then show ?thesis
    using closeBlocks_formatted by (auto simp: stepBlocks_paragraph[OF para])
next
  case blank
  assume "b \<in> set (stepBlocks lines st)"
  then show ?thesis
    using closeBlocks_formatted by (auto simp: stepBlocks_blank[OF blank])
qed

lemma blocksOf_formatted: "b \<in> set (blocksOf text) \<Longrightarrow> formatted b"
  using blocksOf_origin[of b "text"] stepBlocks_formatted by auto

section \<open>Totality\<close>

text \<open>
  C10. For every input string (the empty string, strings of white space and strings with
  unmatched delimiters among them) \<open>renderSimpleMarkdown\<close> returns a string: the outer
  \<^verbatim>\<open>while\<close> ends, since every iteration moves the line index forward; the two inner
  ones and the replacements end by their termination proofs.
\<close>

theorem renderSimpleMarkdown_total: "\<exists>out. renderSimpleMarkdown text = Some out"
proof -
  from loop_rule[of "\<lambda>_. True" initial "split text"]
  obtain st' where "loop (split text) initial = Some st'" by auto
  then show ?thesis by (simp add: renderSimpleMarkdown_def)
qed

section \<open>Where the code departs from the specification\<close>

text \<open>
  C3. The line \<^verbatim>\<open>---b\<close> is not blank and matches none of the heading, blockquote, rule
  and list patterns, yet the paragraph that starts at \<^verbatim>\<open>a\<close> does not consume it: the
  look-ahead of the paragraph loop has the rule pattern without its \<^verbatim>\<open>$\<close>. The input
  \<^verbatim>\<open>a\n---b\<close> gives two paragraphs.
\<close>

theorem paragraph_stops_at_rule_prefix:
  \<open>headingMatch (js ''---b'') = None \<and> blockquoteMatch (js ''---b'') = None
   \<and> \<not> ruleMatch (js ''---b'') \<and> ulMatch (js ''---b'') = None \<and> olMatch (js ''---b'') = None
   \<and> trim (js ''---b'') \<noteq> []
   \<and> renderSimpleMarkdown (js ''a\<newline>---b'')
       = Some (pOpen @ js ''a'' @ pClose @ pOpen @ js ''---b'' @ pClose)\<close>
  by (simp add: inline_defs match_defs block_defs)

text \<open>
  C4. The input \<^verbatim>\<open>a ** b\<close> has one \<^verbatim>\<open>**\<close> and no closing pair. The italic pattern
  \<^verbatim>\<open>(\*|_)(.*?)\1\<close> matches the two asterisks with an empty group: the output has an empty
  \<^verbatim>\<open><em>\<close> element and the asterisks are gone. A single \<^verbatim>\<open>*\<close>, as in \<^verbatim>\<open>a * b\<close>, stays as it
  is.
\<close>

theorem unmatched_bold_marker_becomes_empty_em:
  \<open>renderSimpleMarkdown (js ''a ** b'')
     = Some (pOpen @ js ''a '' @ emOpen @ emClose @ js '' b'' @ pClose)
   \<and> renderSimpleMarkdown (js ''a * b'') = Some (pOpen @ js ''a * b'' @ pClose)\<close>
  by (simp add: inline_defs match_defs block_defs)

text \<open>
  C5. The first line of a blockquote is the group of \<^verbatim>\<open>^>\s?(.*)\<close> and is not trimmed;
  the following lines are \<^verbatim>\<open>substring(1).trim()\<close>. The input \<^verbatim>\<open>>  a  \n>  b  \<close> gives the
  content \<^verbatim>\<open> a  \nb\<close>, where the claim has \<^verbatim>\<open>a\nb\<close>.
\<close>

theorem blockquote_first_line_not_trimmed:
  \<open>renderSimpleMarkdown (js ''>  a  \<newline>>  b  '')
     = Some (blockquoteOpen @ js '' a  \<newline>b'' @ blockquoteClose)\<close>
  by (simp add: inline_defs match_defs block_defs)

section \<open>Headings\<close>

lemma heading_step:
  assumes "i st < length lines"
  shows "(lines ! i st = replicate n (ch CHR ''#'') @ w # rest \<and> 1 \<le> n \<and> n \<le> 3 \<and> isSpace w \<longrightarrow>
            step lines st = (closeListIfNeeded st)\<lparr>html := html (closeListIfNeeded st)
               @ headingMarkup n (applyInlineFormatting (dotStar (dropWhile isSpace rest))),
               i := i st + 1\<rparr>)
       \<and> (lines ! i st = replicate n (ch CHR ''#'') @ rest \<and> 4 \<le> n \<longrightarrow>
            headingMatch (lines ! i st) = None
            \<and> (\<exists>t. html (step lines st) = html (closeListIfNeeded st)
                  @ pOpen @ replicate n (ch CHR ''#'') @ t @ pClose))"
proof (intro conjI impI)
  assume a: "lines ! i st = replicate n (ch CHR ''#'') @ w # rest \<and> 1 \<le> n \<and> n \<le> 3 \<and> isSpace w"
  then have "headingMatch (lines ! i st) = Some (n, dotStar (dropWhile isSpace rest))"
    by (simp add: headingMatch_def matchHashes_exact)
  then show "step lines st = (closeListIfNeeded st)\<lparr>html := html (closeListIfNeeded st)
               @ headingMarkup n (applyInlineFormatting (dotStar (dropWhile isSpace rest))),
               i := i st + 1\<rparr>"
    by (rule step_heading)
next
  assume a: "lines ! i st = replicate n (ch CHR ''#'') @ rest \<and> 4 \<le> n"
  let ?line = "lines ! i st"
  from a show h: "headingMatch ?line = None"
    by (simp add: headingMatch_def matchHashes_too_many)
  from a obtain t0 where t0: "?line = ch CHR ''#'' # t0"
    by (cases n) auto
  have q: "blockquoteMatch ?line = None"
    using blockquoteMatch_first[of ?line] t0 by (cases "blockquoteMatch ?line") auto
  have r: "\<not> ruleMatch ?line"
    using t0 by (auto simp: ruleMatch_iff)
  have u: "ulMatch ?line = None" and ol: "olMatch ?line = None"
    using t0 by simp_all
  have nb: "trim ?line \<noteq> []"
    using t0 by (auto simp: trim_eq_Nil_iff)
  obtain n' pl where pl: "paragraphLoop lines (i st) [?line] = (n', pl)"
    by (cases "paragraphLoop lines (i st) [?line]") auto
  from paragraphLoop_prefix[OF pl] obtain more where "pl = ?line # more" by auto
  with join_Cons[of ?line more] obtain t1 where "join pl = ?line @ t1" by auto
  moreover have "applyInlineFormatting (replicate n (ch CHR ''#'') @ rest @ t1)
      = replicate n (ch CHR ''#'') @ applyInlineFormatting (rest @ t1)"
    by (rule applyInlineFormatting_plain_prefix) (auto simp: reserved_def)
  ultimately have "applyInlineFormatting (join pl)
      = replicate n (ch CHR ''#'') @ applyInlineFormatting (rest @ t1)"
    using a by simp
  with step_paragraph[OF h q r u ol nb pl]
  show "\<exists>t. html (step lines st) = html (closeListIfNeeded st)
                  @ pOpen @ replicate n (ch CHR ''#'') @ t @ pClose"
    by simp
qed

lemma headingMatch_iff:
  "headingMatch line = Some (lv, g) \<longleftrightarrow>
   1 \<le> lv \<and> lv \<le> 3 \<and> (\<exists>w rest. line = replicate lv (ch CHR ''#'') @ w # rest \<and> isSpace w
      \<and> g = dotStar (dropWhile isSpace rest))"
  using headingMatch_Some[of line lv g]
  by (auto simp: headingMatch_def matchHashes_exact)

lemma headingMarkup_literal:
  \<open>headingMarkup n c =
     js ''<h'' @ [ch CHR ''0'' + n] @ js '' class="''
     @ (if n = 1 then js ''text-xl mt-5 mb-3''
        else if n = 2 then js ''text-lg mt-4 mb-2'' else js ''text-base mt-3 mb-1'')
     @ js '' font-semibold text-white">''
     @ c
     @ js ''</h'' @ [ch CHR ''0'' + n] @ js ''>''\<close>
  by (simp add: headingMarkup_def levelDigit_def headingSize_def)

lemma heading_in_output:
  assumes "k < length (split text)" and "headingMatch (split text ! k) = Some (lv, g)"
  shows "\<exists>pre post. renderSimpleMarkdown text
     = Some (pre @ headingMarkup lv (applyInlineFormatting g) @ post)"
proof -
  from assms have "Heading lv (applyInlineFormatting g) \<in> set (blocksOf text)"
    unfolding Heading_in_blocksOf by blast
  then obtain xs ys where "blocksOf text = xs @ Heading lv (applyInlineFormatting g) # ys"
    by (auto simp: in_set_conv_decomp)
  then have "concat (map emit (blocksOf text))
      = concat (map emit xs) @ headingMarkup lv (applyInlineFormatting g) @ concat (map emit ys)"
    by simp
  with render_blocksOf[of "text"] show ?thesis by auto
qed

text \<open>
  C8. A line of one to three \<^verbatim>\<open>#\<close>, a white-space character and the rest gives a heading
  element: the iteration closes an open list and appends the tag \<^verbatim>\<open><h\<close>, the digit of the
  number of \<^verbatim>\<open>#\<close>, the class of that level, the content (the rest behind all white space,
  up to the first line terminator, formatted) and the closing tag with the same digit. A
  line that begins with four or more \<^verbatim>\<open>#\<close> is no heading: the iteration emits a paragraph
  element that begins with these \<^verbatim>\<open>#\<close>. Over the whole input: the output is the markup of
  the blocks of \<open>blocksOf\<close>, the markup of a heading block is this element, a heading of
  level \<open>lv\<close> is among the blocks exactly when some line of the input is \<open>lv\<close> times \<^verbatim>\<open>#\<close>,
  with \<open>lv\<close> from 1 to 3, then white space, then its content, and for every such line the
  output contains the element.
\<close>

theorem heading_levels:
  \<open>(i st < length lines \<and> lines ! i st = replicate n (ch CHR ''#'') @ w # rest
      \<and> 1 \<le> n \<and> n \<le> 3 \<and> isSpace w \<longrightarrow>
      step lines st = (closeListIfNeeded st)\<lparr>html := html (closeListIfNeeded st)
         @ js ''<h'' @ [ch CHR ''0'' + n] @ js '' class="''
         @ (if n = 1 then js ''text-xl mt-5 mb-3''
            else if n = 2 then js ''text-lg mt-4 mb-2'' else js ''text-base mt-3 mb-1'')
         @ js '' font-semibold text-white">''
         @ applyInlineFormatting (dotStar (dropWhile isSpace rest))
         @ js ''</h'' @ [ch CHR ''0'' + n] @ js ''>'',
         i := i st + 1\<rparr>)
   \<and> (i st < length lines \<and> lines ! i st = replicate n (ch CHR ''#'') @ rest \<and> 4 \<le> n \<longrightarrow>
      headingMatch (lines ! i st) = None
      \<and> (\<exists>t. html (step lines st) = html (closeListIfNeeded st)
            @ js ''<p class="my-2 leading-relaxed">'' @ replicate n (ch CHR ''#'') @ t
            @ js ''</p>''))
   \<and> renderSimpleMarkdown text = Some (concat (map emit (blocksOf text)))
   \<and> emit (Heading lv c) =
       js ''<h'' @ [ch CHR ''0'' + lv] @ js '' class="''
       @ (if lv = 1 then js ''text-xl mt-5 mb-3''
          else if lv = 2 then js ''text-lg mt-4 mb-2'' else js ''text-base mt-3 mb-1'')
       @ js '' font-semibold text-white">''
       @ c
       @ js ''</h'' @ [ch CHR ''0'' + lv] @ js ''>''
   \<and> (Heading lv c \<in> set (blocksOf text) \<longleftrightarrow>
        1 \<le> lv \<and> lv \<le> 3
        \<and> (\<exists>k<length (split text). \<exists>w rest.
              split text ! k = replicate lv (ch CHR ''#'') @ w # rest \<and> isSpace w
              \<and> c = applyInlineFormatting (dotStar (dropWhile isSpace rest))))
   \<and> (k < length (split text) \<and> split text ! k = replicate n (ch CHR ''#'') @ w # rest
      \<and> 1 \<le> n \<and> n \<le> 3 \<and> isSpace w \<longrightarrow>
      (\<exists>pre post. renderSimpleMarkdown text = Some (pre
         @ js ''<h'' @ [ch CHR ''0'' + n] @ js '' class="''
         @ (if n = 1 then js ''text-xl mt-5 mb-3''
            else if n = 2 then js ''text-lg mt-4 mb-2'' else js ''text-base mt-3 mb-1'')
         @ js '' font-semibold text-white">''
         @ applyInlineFormatting (dotStar (dropWhile isSpace rest))
         @ js ''</h'' @ [ch CHR ''0'' + n] @ js ''>''
         @ post)))\<close>
proof -
  have 1: "i st < length lines \<and> lines ! i st = replicate n (ch CHR ''#'') @ w # rest
      \<and> 1 \<le> n \<and> n \<le> 3 \<and> isSpace w \<longrightarrow>
      step lines st = (closeListIfNeeded st)\<lparr>html := html (closeListIfNeeded st)
         @ headingMarkup n (applyInlineFormatting (dotStar (dropWhile isSpace rest))),
         i := i st + 1\<rparr>"
    and 2: "i st < length lines \<and> lines ! i st = replicate n (ch CHR ''#'') @ rest \<and> 4 \<le> n \<longrightarrow>
      headingMatch (lines ! i st) = None
      \<and> (\<exists>t. html (step lines st) = html (closeListIfNeeded st)
            @ pOpen @ replicate n (ch CHR ''#'') @ t @ pClose)"
    using heading_step[of st lines n w rest] by blast+
  have 3: "emit (Heading lv c) = headingMarkup lv c" by simp
  have 4: "Heading lv c \<in> set (blocksOf text) \<longleftrightarrow>
        1 \<le> lv \<and> lv \<le> 3
        \<and> (\<exists>k<length (split text). \<exists>w rest.
              split text ! k = replicate lv (ch CHR ''#'') @ w # rest \<and> isSpace w
              \<and> c = applyInlineFormatting (dotStar (dropWhile isSpace rest)))"
    unfolding Heading_in_blocksOf headingMatch_iff by blast
  have 5: "k < length (split text) \<and> split text ! k = replicate n (ch CHR ''#'') @ w # rest
      \<and> 1 \<le> n \<and> n \<le> 3 \<and> isSpace w \<longrightarrow>
      (\<exists>pre post. renderSimpleMarkdown text = Some (pre
         @ headingMarkup n (applyInlineFormatting (dotStar (dropWhile isSpace rest))) @ post))"
  proof
    assume a: "k < length (split text) \<and> split text ! k = replicate n (ch CHR ''#'') @ w # rest
      \<and> 1 \<le> n \<and> n \<le> 3 \<and> isSpace w"
    then have m: "headingMatch (split text ! k) = Some (n, dotStar (dropWhile isSpace rest))"
      unfolding headingMatch_iff by blast
    from a have "k < length (split text)" by blast
    from heading_in_output[OF this m]
    show "\<exists>pre post. renderSimpleMarkdown text = Some (pre
         @ headingMarkup n (applyInlineFormatting (dotStar (dropWhile isSpace rest))) @ post)" .
  qed
  note r = render_blocksOf[of "text"]
  from 1 2 r 3 4 5 show ?thesis
    unfolding headingMarkup_literal pOpen_def pClose_def append_assoc
    apply -
    apply (intro conjI)
    apply assumption+
    done
qed

theorem heading_levels_witness:
  \<open>step [js ''# Title''] initial
     = \<lparr>html = js ''<h1 class="text-xl mt-5 mb-3 font-semibold text-white">Title</h1>'',
        inList = None, i = 1\<rparr>
   \<and> step [js ''### Sub''] initial
     = \<lparr>html = js ''<h3 class="text-base mt-3 mb-1 font-semibold text-white">Sub</h3>'',
        inList = None, i = 1\<rparr>
   \<and> headingMatch (js ''#### Too Deep'') = None
   \<and> (\<exists>t. html (step [js ''#### Too Deep''] initial)
         = js ''<p class="my-2 leading-relaxed">####'' @ t @ js ''</p>'')
   \<and> renderSimpleMarkdown (js ''#### Too Deep'')
     = Some (js ''<p class="my-2 leading-relaxed">#### Too Deep</p>'')
   \<and> renderSimpleMarkdown (js ''# Title'')
     = Some (js ''<h1 class="text-xl mt-5 mb-3 font-semibold text-white">Title</h1>'')
   \<and> Heading 1 (js ''Title'') \<in> set (blocksOf (js ''a\<newline># Title''))
   \<and> emit (Heading 2 (js ''x''))
     = js ''<h2 class="text-lg mt-4 mb-2 font-semibold text-white">x</h2>''
   \<and> (\<exists>pre post. renderSimpleMarkdown (js ''a\<newline># Title'')
         = Some (pre @ js ''<h1 class="text-xl mt-5 mb-3 font-semibold text-white">Title</h1>''
                 @ post))\<close>
proof -
  have a: \<open>i initial < length [js ''# Title'']
      \<and> [js ''# Title''] ! i initial = replicate 1 (ch CHR ''#'') @ 32 # js ''Title''
      \<and> (1::nat) \<le> 1 \<and> (1::nat) \<le> 3 \<and> isSpace 32\<close>
    by (simp add: initial_def js_def ch_def isSpace_def)
  have b: \<open>i initial < length [js ''### Sub'']
      \<and> [js ''### Sub''] ! i initial = replicate 3 (ch CHR ''#'') @ 32 # js ''Sub''
      \<and> (1::nat) \<le> 3 \<and> (3::nat) \<le> 3 \<and> isSpace 32\<close>
    by (simp add: initial_def js_def ch_def isSpace_def numeral_3_eq_3)
  have c: \<open>i initial < length [js ''#### Too Deep'']
      \<and> [js ''#### Too Deep''] ! i initial = replicate 4 (ch CHR ''#'') @ js '' Too Deep''
      \<and> (4::nat) \<le> 4\<close>
    by (simp add: initial_def js_def ch_def eval_nat_numeral)
  have t: \<open>applyInlineFormatting (dotStar (dropWhile isSpace (js ''Title''))) = js ''Title''\<close>
    \<open>applyInlineFormatting (dotStar (dropWhile isSpace (js ''Sub''))) = js ''Sub''\<close>
    by (simp_all add: inline_defs match_defs)
  have h: \<open>replicate 4 (ch CHR ''#'') = js ''####''\<close>
    by (simp add: js_def ch_def eval_nat_numeral)
  have d: \<open>(1::nat) \<le> 1 \<and> (1::nat) \<le> 3
      \<and> (\<exists>k<length (split (js ''a\<newline># Title'')). \<exists>w rest.
            split (js ''a\<newline># Title'') ! k = replicate 1 (ch CHR ''#'') @ w # rest \<and> isSpace w
            \<and> js ''Title'' = applyInlineFormatting (dotStar (dropWhile isSpace rest)))\<close>
  proof (intro conjI)
    show \<open>\<exists>k<length (split (js ''a\<newline># Title'')). \<exists>w rest.
            split (js ''a\<newline># Title'') ! k = replicate 1 (ch CHR ''#'') @ w # rest \<and> isSpace w
            \<and> js ''Title'' = applyInlineFormatting (dotStar (dropWhile isSpace rest))\<close>
      by (rule exI[of _ 1], intro conjI, simp add: js_def, rule exI[of _ 32],
          rule exI[of _ \<open>js ''Title''\<close>])
        (simp add: t, simp add: js_def ch_def isSpace_def)
  qed simp_all
  have g: \<open>1 < length (split (js ''a\<newline># Title''))
      \<and> split (js ''a\<newline># Title'') ! 1 = replicate 1 (ch CHR ''#'') @ 32 # js ''Title''
      \<and> (1::nat) \<le> 1 \<and> (1::nat) \<le> 3 \<and> isSpace 32\<close>
    by (simp add: js_def ch_def isSpace_def)
  have r: \<open>renderSimpleMarkdown (js ''#### Too Deep'')
     = Some (js ''<p class="my-2 leading-relaxed">#### Too Deep</p>'')\<close>
    \<open>renderSimpleMarkdown (js ''# Title'')
     = Some (js ''<h1 class="text-xl mt-5 mb-3 font-semibold text-white">Title</h1>'')\<close>
    by (simp_all add: inline_defs match_defs block_defs)
  from heading_levels[of initial \<open>[js ''# Title'']\<close> 1 32 \<open>js ''Title''\<close>
      \<open>js ''a\<newline># Title''\<close> 1 \<open>js ''Title''\<close> 1] a d g
  have p1: \<open>step [js ''# Title''] initial = (closeListIfNeeded initial)\<lparr>html :=
      html (closeListIfNeeded initial) @ js ''<h'' @ [ch CHR ''0'' + 1] @ js '' class="''
        @ (if (1::nat) = 1 then js ''text-xl mt-5 mb-3''
           else if (1::nat) = 2 then js ''text-lg mt-4 mb-2'' else js ''text-base mt-3 mb-1'')
        @ js '' font-semibold text-white">''
        @ applyInlineFormatting (dotStar (dropWhile isSpace (js ''Title'')))
        @ js ''</h'' @ [ch CHR ''0'' + 1] @ js ''>'', i := i initial + 1\<rparr>\<close>
    and p4: \<open>Heading 1 (js ''Title'') \<in> set (blocksOf (js ''a\<newline># Title''))\<close>
    and p5: \<open>\<exists>pre post. renderSimpleMarkdown (js ''a\<newline># Title'') = Some (pre
        @ js ''<h'' @ [ch CHR ''0'' + 1] @ js '' class="''
        @ (if (1::nat) = 1 then js ''text-xl mt-5 mb-3''
           else if (1::nat) = 2 then js ''text-lg mt-4 mb-2'' else js ''text-base mt-3 mb-1'')
        @ js '' font-semibold text-white">''
        @ applyInlineFormatting (dotStar (dropWhile isSpace (js ''Title'')))
        @ js ''</h'' @ [ch CHR ''0'' + 1] @ js ''>'' @ post)\<close>
    by blast+
  from heading_levels[of initial \<open>[js ''### Sub'']\<close> 3 32 \<open>js ''Sub''\<close> _ 2 \<open>js ''x''\<close>] b
  have p2: \<open>step [js ''### Sub''] initial = (closeListIfNeeded initial)\<lparr>html :=
      html (closeListIfNeeded initial) @ js ''<h'' @ [ch CHR ''0'' + 3] @ js '' class="''
        @ (if (3::nat) = 1 then js ''text-xl mt-5 mb-3''
           else if (3::nat) = 2 then js ''text-lg mt-4 mb-2'' else js ''text-base mt-3 mb-1'')
        @ js '' font-semibold text-white">''
        @ applyInlineFormatting (dotStar (dropWhile isSpace (js ''Sub'')))
        @ js ''</h'' @ [ch CHR ''0'' + 3] @ js ''>'', i := i initial + 1\<rparr>\<close>
    and p6: \<open>emit (Heading 2 (js ''x'')) = js ''<h'' @ [ch CHR ''0'' + 2] @ js '' class="''
        @ (if (2::nat) = 1 then js ''text-xl mt-5 mb-3''
           else if (2::nat) = 2 then js ''text-lg mt-4 mb-2'' else js ''text-base mt-3 mb-1'')
        @ js '' font-semibold text-white">'' @ js ''x''
        @ js ''</h'' @ [ch CHR ''0'' + 2] @ js ''>''\<close>
    by blast+
  from heading_levels[of initial \<open>[js ''#### Too Deep'']\<close> 4 _ \<open>js '' Too Deep''\<close>] c
  have p3: \<open>headingMatch ([js ''#### Too Deep''] ! i initial) = None
      \<and> (\<exists>t. html (step [js ''#### Too Deep''] initial) = html (closeListIfNeeded initial)
            @ js ''<p class="my-2 leading-relaxed">'' @ replicate 4 (ch CHR ''#'') @ t
            @ js ''</p>'')\<close>
    by blast
  have l: \<open>js ''<h'' @ [ch CHR ''0'' + 1] @ js '' class="'' @ js ''text-xl mt-5 mb-3''
        @ js '' font-semibold text-white">'' @ js ''Title'' @ js ''</h'' @ [ch CHR ''0'' + 1]
        @ js ''>'' = js ''<h1 class="text-xl mt-5 mb-3 font-semibold text-white">Title</h1>''\<close>
    by (simp add: js_def ch_def)
  from p5 have q5: \<open>\<exists>pre post. renderSimpleMarkdown (js ''a\<newline># Title'')
         = Some (pre @ js ''<h1 class="text-xl mt-5 mb-3 font-semibold text-white">Title</h1>''
                 @ post)\<close>
    unfolding t by (simp add: l[symmetric])
  from p3 have q3: \<open>headingMatch (js ''#### Too Deep'') = None
      \<and> (\<exists>t. html (step [js ''#### Too Deep''] initial)
         = js ''<p class="my-2 leading-relaxed">####'' @ t @ js ''</p>'')\<close>
    by (simp add: h closeListIfNeeded_def initial_def js_def)
  from p1 have q1: \<open>step [js ''# Title''] initial
     = \<lparr>html = js ''<h1 class="text-xl mt-5 mb-3 font-semibold text-white">Title</h1>'',
        inList = None, i = 1\<rparr>\<close>
    unfolding t by (simp add: closeListIfNeeded_def initial_def js_def ch_def)
  from p2 have q2: \<open>step [js ''### Sub''] initial
     = \<lparr>html = js ''<h3 class="text-base mt-3 mb-1 font-semibold text-white">Sub</h3>'',
        inList = None, i = 1\<rparr>\<close>
    unfolding t by (simp add: closeListIfNeeded_def initial_def js_def ch_def)
  from p6 have q6: \<open>emit (Heading 2 (js ''x''))
     = js ''<h2 class="text-lg mt-4 mb-2 font-semibold text-white">x</h2>''\<close>
    by (simp add: js_def ch_def)
  from q1 q2 q3 p4 q5 q6 r show ?thesis by blast
qed

section \<open>Lists of two kinds\<close>


lemma closeListIfNeeded_html:
  "html (closeListIfNeeded st)
     = html st @ (case inList st of None \<Rightarrow> [] | Some k \<Rightarrow> js ''</'' @ tagName k @ js ''>'')"
  by (simp add: closeListIfNeeded_def split: option.splits)




section \<open>Horizontal rules\<close>


lemma isRuleChar_set: "(\<forall>c\<in>set line. isRuleChar c) \<longleftrightarrow> set line \<subseteq> {ch CHR ''-'', ch CHR ''*'', ch CHR ''_''}"
  by (auto simp: isRuleChar_def)

lemma hr_not_heading: "lv \<le> 3 \<Longrightarrow> headingMarkup lv g \<noteq> hrMarkup"
  by (auto simp: headingMarkup_def levelDigit_def hrMarkup_def js_def ch_def)

lemma hr_not_blockquote: "blockquoteOpen @ t \<noteq> hrMarkup"
  by (simp add: blockquoteOpen_def hrMarkup_def js_def)

lemma hr_not_p: "pOpen @ t \<noteq> hrMarkup"
  by (simp add: pOpen_def hrMarkup_def js_def)

lemma hr_not_list:
  "ulOpen @ t \<noteq> hrMarkup" "olOpen @ t \<noteq> hrMarkup" "liMarkup g \<noteq> js ''</'' @ t"
  "hrMarkup \<noteq> []"
  by (simp_all add: ulOpen_def olOpen_def liMarkup_def hrMarkup_def js_def)

lemma rule_step:
  assumes "i st < length lines"
  shows "(html (step lines st) = html (closeListIfNeeded st) @ hrMarkup
            \<longleftrightarrow> 3 \<le> length (lines ! i st)
                \<and> set (lines ! i st) \<subseteq> {ch CHR ''-'', ch CHR ''*'', ch CHR ''_''})
       \<and> (3 \<le> length (lines ! i st)
            \<and> set (lines ! i st) \<subseteq> {ch CHR ''-'', ch CHR ''*'', ch CHR ''_''} \<longrightarrow>
          step lines st = (closeListIfNeeded st)\<lparr>html := html (closeListIfNeeded st) @ hrMarkup,
             i := i st + 1\<rparr>)"
proof -
  let ?line = "lines ! i st"
  have rm: "ruleMatch ?line \<longleftrightarrow> 3 \<le> length ?line
      \<and> set ?line \<subseteq> {ch CHR ''-'', ch CHR ''*'', ch CHR ''_''}"
    by (simp add: ruleMatch_iff isRuleChar_set)
  have yes: "step lines st = (closeListIfNeeded st)\<lparr>html := html (closeListIfNeeded st) @ hrMarkup,
             i := i st + 1\<rparr>" if "ruleMatch ?line"
    using that by (intro step_rule ruleMatch_headingMatch ruleMatch_blockquoteMatch)
  have no: "html (step lines st) \<noteq> html (closeListIfNeeded st) @ hrMarkup" if nr: "\<not> ruleMatch ?line"
  proof (cases rule: step_cases[of lines st])
    case (heading lv g)
    from headingMatch_Some[OF heading] have "lv \<le> 3" by simp
    then show ?thesis using hr_not_heading[of lv "applyInlineFormatting g"]
      by (simp add: step_heading[OF heading])
  next
    case (blockquote g n qc)
    then show ?thesis using hr_not_blockquote by (simp add: step_blockquote)
  next
    case hrule
    with nr show ?thesis by simp
  next
    case (ulist g)
    then show ?thesis using hr_not_list
      by (cases "inList st") (auto simp: step_ul closeListIfNeeded_html)
  next
    case (olist g)
    then show ?thesis using hr_not_list
      by (cases "inList st") (auto simp: step_ol closeListIfNeeded_html)
  next
    case (para n pl)
    then show ?thesis using hr_not_p by (simp add: step_paragraph)
  next
    case blank
    then show ?thesis using hr_not_list by (simp add: step_blank)
  qed
  from yes no rm show ?thesis by auto
qed

text \<open>
  C2, as the code has it. An iteration emits the rule element (behind the closing tag of
  an open list) if and only if its line consists of three or more characters, each of
  them \<^verbatim>\<open>-\<close>, \<^verbatim>\<open>*\<close> or \<^verbatim>\<open>_\<close>: the characters need not be the same one, and the line has
  no white space. Such an iteration closes an open list, emits one rule element and moves
  on by one line. Over the whole input: the output is the markup of the blocks of
  \<open>blocksOf\<close>, and a rule is among them exactly when some line of the input is such a
  line.
\<close>

theorem horizontal_rule_lines:
  "(i st < length lines \<longrightarrow>
      (html (step lines st) = html (closeListIfNeeded st) @ hrMarkup
         \<longleftrightarrow> 3 \<le> length (lines ! i st)
             \<and> set (lines ! i st) \<subseteq> {ch CHR ''-'', ch CHR ''*'', ch CHR ''_''})
      \<and> (3 \<le> length (lines ! i st)
            \<and> set (lines ! i st) \<subseteq> {ch CHR ''-'', ch CHR ''*'', ch CHR ''_''} \<longrightarrow>
          step lines st = (closeListIfNeeded st)\<lparr>html := html (closeListIfNeeded st) @ hrMarkup,
             i := i st + 1\<rparr>))
   \<and> renderSimpleMarkdown text = Some (concat (map emit (blocksOf text)))
   \<and> (Rule \<in> set (blocksOf text) \<longleftrightarrow>
        (\<exists>k<length (split text). 3 \<le> length (split text ! k)
            \<and> set (split text ! k) \<subseteq> {ch CHR ''-'', ch CHR ''*'', ch CHR ''_''}))"
proof -
  have "Rule \<in> set (blocksOf text) \<longleftrightarrow>
        (\<exists>k<length (split text). 3 \<le> length (split text ! k)
            \<and> set (split text ! k) \<subseteq> {ch CHR ''-'', ch CHR ''*'', ch CHR ''_''})"
    unfolding Rule_in_blocksOf ruleMatch_iff isRuleChar_set ..
  with rule_step[of st lines] render_blocksOf[of "text"] show ?thesis by blast
qed

theorem horizontal_rule_lines_witness:
  \<open>step [js ''-*_''] \<lparr>html = ulOpen @ liMarkup (js ''a''), inList = Some UL, i = 0\<rparr>
     = \<lparr>html = ulOpen @ liMarkup (js ''a'') @ js ''</ul>'' @ hrMarkup, inList = None, i = 1\<rparr>
   \<and> Rule \<in> set (blocksOf (js ''a\<newline>-*_''))\<close>
proof -
  let ?st = \<open>\<lparr>html = ulOpen @ liMarkup (js ''a''), inList = Some UL, i = 0\<rparr>\<close>
  have a: \<open>i ?st < length [js ''-*_'']\<close> by simp
  have b: \<open>3 \<le> length ([js ''-*_''] ! i ?st)
      \<and> set ([js ''-*_''] ! i ?st) \<subseteq> {ch CHR ''-'', ch CHR ''*'', ch CHR ''_''}\<close>
    by (simp add: js_def ch_def)
  have c: \<open>\<exists>k<length (split (js ''a\<newline>-*_'')). 3 \<le> length (split (js ''a\<newline>-*_'') ! k)
      \<and> set (split (js ''a\<newline>-*_'') ! k) \<subseteq> {ch CHR ''-'', ch CHR ''*'', ch CHR ''_''}\<close>
    by (rule exI[of _ 1]) (simp add: js_def ch_def)
  from horizontal_rule_lines[of ?st \<open>[js ''-*_'']\<close> \<open>js ''a\<newline>-*_''\<close>] a b c
  have \<open>step [js ''-*_''] ?st = (closeListIfNeeded ?st)\<lparr>html := html (closeListIfNeeded ?st)
      @ hrMarkup, i := i ?st + 1\<rparr>\<close> and \<open>Rule \<in> set (blocksOf (js ''a\<newline>-*_''))\<close>
    by blast+
  then show ?thesis
    by (simp add: closeListIfNeeded_def js_def)
qed

text \<open>
  C2, as the specification has it, fails: the line \<^verbatim>\<open>-*_\<close> is three different characters
  and is rendered as a rule, and the line \<^verbatim>\<open>--- \<close>, three dashes and a space, is rendered
  as a paragraph.
\<close>

theorem rule_of_mixed_characters:
  \<open>js ''-*_'' ! 0 \<noteq> js ''-*_'' ! 1
   \<and> renderSimpleMarkdown (js ''-*_'') = Some hrMarkup
   \<and> renderSimpleMarkdown (js ''--- '') = Some (pOpen @ js ''--- '' @ pClose)\<close>
  by (simp add: inline_defs match_defs block_defs)

section \<open>Lists are closed\<close>

text \<open>
  C6. The output is the markup of the blocks of \<open>blocksOf\<close>, in order, and these blocks
  are well nested from no open list: a list is closed by the closing tag of its own kind
  before any heading, blockquote, rule, paragraph or list of the other kind is emitted
  and before the end of the output, and list items occur only inside a list.
\<close>

theorem lists_are_closed:
  "renderSimpleMarkdown text = Some (concat (map emit (blocksOf text)))
   \<and> wellNested None (blocksOf text)"
proof -
  have "wellNested None (blocksOf text)"
  proof (cases "text = []")
    case True
    then show ?thesis by (simp add: blocksOf_def)
  next
    case False
    have "length (split text) - i initial \<le> length (split text)" by simp
    from loop_blocksFrom[OF this] False show ?thesis
      by (auto simp: blocksOf_def initial_def)
  qed
  with render_blocksOf show ?thesis by simp
qed

theorem lists_are_closed_witness:
  \<open>blocksOf (js ''- a\<newline>1. b\<newline># c'')
     = [ListOpen UL, ListItem (js ''a''), ListClose UL, ListOpen OL, ListItem (js ''b''),
        ListClose OL, Heading 1 (js ''c'')]
   \<and> renderSimpleMarkdown (js ''- a\<newline>1. b\<newline># c'')
     = Some (ulOpen @ liMarkup (js ''a'') @ js ''</ul>'' @ olOpen @ liMarkup (js ''b'')
             @ js ''</ol>'' @ headingMarkup 1 (js ''c''))\<close>
proof -
  have b: \<open>blocksOf (js ''- a\<newline>1. b\<newline># c'')
     = [ListOpen UL, ListItem (js ''a''), ListClose UL, ListOpen OL, ListItem (js ''b''),
        ListClose OL, Heading 1 (js ''c'')]\<close>
    by (simp add: blocksOf_def stepBlocks_def closeBlocks_def inline_defs match_defs block_defs)
  from lists_are_closed[of \<open>js ''- a\<newline>1. b\<newline># c''\<close>] show ?thesis
    unfolding b by (simp add: js_def)
qed

section \<open>Markup and text\<close>

lemma madeOf_append: "madeOf F a \<Longrightarrow> madeOf F b \<Longrightarrow> madeOf F (a @ b)"
  by (induction rule: madeOf.induct) (auto intro: madeOf.intros)

lemma madeOf_mono: "madeOf F s \<Longrightarrow> set F \<subseteq> set G \<Longrightarrow> madeOf G s"
  by (induction rule: madeOf.induct) (auto intro: madeOf.intros)

lemma madeOf_piece: "f \<in> set F \<Longrightarrow> madeOf F f"
  using madeOf_Piece[OF _ madeOf_Nil] by fastforce

lemma append_eq_snoc_split:
  assumes "f @ s = p @ x # q" and "x \<notin> set f"
  shows "\<exists>us. p = f @ us \<and> s = us @ x # q"
proof -
  from assms(1) obtain us where
    "(f = p @ us \<and> us @ s = x # q) \<or> (f @ us = p \<and> s = us @ x # q)"
    by (auto simp: append_eq_append_conv2)
  then show ?thesis
  proof
    assume a: "f = p @ us \<and> us @ s = x # q"
    show ?thesis
    proof (cases us)
      case Nil
      with a show ?thesis by simp
    next
      case (Cons y ys)
      with a have "x \<in> set f" by auto
      with assms(2) show ?thesis by simp
    qed
  next
    assume "f @ us = p \<and> s = us @ x # q"
    then show ?thesis by auto
  qed
qed

lemma madeOf_split1:
  "madeOf F s \<Longrightarrow> s = p @ x # q \<Longrightarrow> (\<And>f. f \<in> set F \<Longrightarrow> x \<notin> set f) \<Longrightarrow>
   madeOf F p \<and> madeOf F q"
proof (induction arbitrary: p rule: madeOf.induct)
  case madeOf_Nil
  then show ?case by simp
next
  case (madeOf_Char c s)
  show ?case
  proof (cases p)
    case Nil
    with madeOf_Char show ?thesis by (auto intro: madeOf.intros)
  next
    case (Cons y ys)
    with madeOf_Char.prems have "s = ys @ x # q" "y = c" by auto
    with madeOf_Char.IH[OF this(1) madeOf_Char.prems(2)] madeOf_Char.hyps Cons
    show ?thesis by (auto intro: madeOf.intros)
  qed
next
  case (madeOf_Piece f s)
  from madeOf_Piece.prems(2)[OF madeOf_Piece.hyps(1)] have "x \<notin> set f" .
  from append_eq_snoc_split[OF madeOf_Piece.prems(1) this]
  obtain us where us: "p = f @ us" "s = us @ x # q" by auto
  from madeOf_Piece.IH[OF us(2) madeOf_Piece.prems(2)]
  have "madeOf F us" "madeOf F q" by auto
  with us madeOf_Piece.hyps(1) show ?case by (auto intro: madeOf.intros)
qed

lemma madeOf_split:
  "madeOf F (p @ d @ q) \<Longrightarrow> d \<noteq> [] \<Longrightarrow> (\<And>f x. f \<in> set F \<Longrightarrow> x \<in> set d \<Longrightarrow> x \<notin> set f) \<Longrightarrow>
   madeOf F p \<and> madeOf F q"
proof (induction d arbitrary: p)
  case Nil
  then show ?case by simp
next
  case (Cons x d)
  from madeOf_split1[OF Cons.prems(1), of p x "d @ q"] Cons.prems(3)
  have pq: "madeOf F p" "madeOf F (d @ q)" by auto
  show ?case
  proof (cases "d = []")
    case True
    with pq show ?thesis by simp
  next
    case False
    from Cons.IH[of "[]"] pq(2) False Cons.prems(3) have "madeOf F q" by auto
    with pq show ?thesis by simp
  qed
qed

lemma replaceGlobal_madeOf:
  assumes ne: "[] \<notin> set F" and sub: "set F \<subseteq> set G"
    and none: "m [] = None"
    and start: "\<And>f x t. f \<in> set F \<Longrightarrow> x \<in> set f \<Longrightarrow> m (x # t) = None"
    and match: "\<And>s rep rest. madeOf F s \<Longrightarrow> m s = Some (rep, rest) \<Longrightarrow>
        madeOf G rep \<and> madeOf F rest \<and> length rest < length s"
  shows "madeOf F s \<Longrightarrow> madeOf G (replaceGlobal m s)"
proof (induction "length s" arbitrary: s rule: less_induct)
  case less
  from less.prems show ?case
  proof (cases rule: madeOf.cases)
    case madeOf_Nil
    with none show ?thesis by (simp add: madeOf.madeOf_Nil)
  next
    case (madeOf_Char c s')
    show ?thesis
    proof (cases "m s")
      case None
      from less.hyps[of s'] madeOf_Char have "madeOf G (replaceGlobal m s')" by simp
      with None madeOf_Char show ?thesis by (auto intro: madeOf.intros)
    next
      case (Some r)
      obtain rep rest where r: "r = (rep, rest)" by (cases r)
      from match[OF less.prems Some[unfolded r]]
      have m: "madeOf G rep" "madeOf F rest" "length rest < length s" by auto
      from less.hyps[OF m(3) m(2)] have "madeOf G (replaceGlobal m rest)" .
      with m(1) have "madeOf G (rep @ replaceGlobal m rest)" by (rule madeOf_append)
      with Some r m(3) madeOf_Char show ?thesis by simp
    qed
  next
    case (madeOf_Piece f s')
    with ne have "f \<noteq> []" by auto
    with madeOf_Piece have "length s' < length s" by simp
    from less.hyps[OF this madeOf_Piece(3)] have "madeOf G (replaceGlobal m s')" .
    moreover have "replaceGlobal m (f @ s') = f @ replaceGlobal m s'"
      by (rule replaceGlobal_skip) (rule start[OF madeOf_Piece(2)])
    moreover from madeOf_Piece(2) sub have "f \<in> set G" by auto
    ultimately show ?thesis using madeOf_Piece(1) by (auto intro: madeOf.intros)
  qed
qed

lemma lazyStar_decomp:
  "lazyStar p k s = Some (a, r) \<Longrightarrow> \<exists>u. s = a @ u \<and> k u = Some r \<and> (\<forall>c\<in>set a. p c)"
proof (induction s arbitrary: a)
  case Nil
  then show ?case by (auto split: option.splits)
next
  case (Cons c cs)
  show ?case
  proof (cases "k (c # cs)")
    case (Some r')
    with Cons.prems show ?thesis by auto
  next
    case None
    with Cons.prems obtain a' where a': "p c" "lazyStar p k cs = Some (a', r)" "a = c # a'"
      by (auto split: if_splits option.splits)
    from Cons.IH[OF a'(2)] a' show ?thesis by auto
  qed
qed

lemma matchPaired_decomp:
  "matchPaired ds s = Some (a, rest) \<Longrightarrow> \<exists>d\<in>set ds. s = d @ a @ d @ rest"
proof (induction ds)
  case Nil
  then show ?case by simp
next
  case (Cons d ds)
  show ?case
  proof (cases "\<exists>t. lit d s = Some t \<and> lazyStar isDot (lit d) t = Some (a, rest)")
    case True
    then obtain t where t: "lit d s = Some t" "lazyStar isDot (lit d) t = Some (a, rest)"
      by auto
    from lazyStar_decomp[OF t(2)] obtain u where "t = a @ u" "lit d u = Some rest" by auto
    with t(1) have "s = d @ a @ d @ rest" by (simp add: lit_Some_iff)
    then show ?thesis by simp
  next
    case False
    with Cons.prems have "matchPaired ds s = Some (a, rest)"
      by (auto split: option.splits)
    from Cons.IH[OF this] show ?thesis by auto
  qed
qed

lemma matchBold_decomp:
  "matchBold s = Some (rep, rest) \<Longrightarrow>
   \<exists>d a. (d = js ''**'' \<or> d = js ''__'') \<and> s = d @ a @ d @ rest
     \<and> rep = strongOpen @ a @ strongClose"
  by (auto simp: matchBold_def simp del: matchPaired.simps split: option.splits
      dest!: matchPaired_decomp)

lemma matchItalic_decomp:
  "matchItalic s = Some (rep, rest) \<Longrightarrow>
   \<exists>d a. (d = js ''*'' \<or> d = js ''_'') \<and> s = d @ a @ d @ rest \<and> rep = emOpen @ a @ emClose"
  by (auto simp: matchItalic_def simp del: matchPaired.simps split: option.splits
      dest!: matchPaired_decomp)

lemma matchStrike_decomp:
  "matchStrike s = Some (rep, rest) \<Longrightarrow>
   \<exists>a. s = js ''~~'' @ a @ js ''~~'' @ rest \<and> rep = delOpen @ a @ delClose"
  by (auto simp: matchStrike_def simp del: matchPaired.simps split: option.splits
      dest!: matchPaired_decomp)

lemma matchCode_decomp:
  \<open>matchCode s = Some (rep, rest) \<Longrightarrow>
   \<exists>a. s = js ''`'' @ a @ js ''`'' @ rest \<and> a \<noteq> [] \<and> ch CHR ''`'' \<notin> set a
     \<and> rep = codeOpen @ a @ codeClose\<close>
proof -
  assume m: "matchCode s = Some (rep, rest)"
  then obtain t g where t: \<open>lit (js ''`'') s = Some t\<close>
    \<open>lazyPlus (\<lambda>c. c \<noteq> ch CHR ''`'') (lit (js ''`'')) t = Some (g, rest)\<close>
    "rep = codeOpen @ g @ codeClose"
    by (auto simp: matchCode_def split: option.splits)
  from t(2) obtain c cs a where c: "t = c # cs" \<open>c \<noteq> ch CHR ''`''\<close>
    \<open>lazyStar (\<lambda>c. c \<noteq> ch CHR ''`'') (lit (js ''`'')) cs = Some (a, rest)\<close> "g = c # a"
    by (auto simp: lazyPlus_def split: list.splits if_splits option.splits)
  from lazyStar_decomp[OF c(3)] obtain u where
    u: "cs = a @ u" \<open>lit (js ''`'') u = Some rest\<close> \<open>\<forall>x\<in>set a. x \<noteq> ch CHR ''`''\<close> by auto
  from t(1) c u have \<open>s = js ''`'' @ g @ js ''`'' @ rest\<close>
    by (simp add: lit_Some_iff)
  moreover from c u have \<open>g \<noteq> [] \<and> ch CHR ''`'' \<notin> set g\<close> by auto
  ultimately show ?thesis using t(3) by blast
qed

lemma matchLink_decomp:
  "matchLink s = Some (rep, rest) \<Longrightarrow>
   \<exists>l u. s = js ''['' @ l @ js '']('' @ u @ js '')'' @ rest \<and> rep = aOpen @ u @ aMid @ l @ aClose"
proof -
  assume m: "matchLink s = Some (rep, rest)"
  let ?k = "\<lambda>u. case lit (js '']('') u of None \<Rightarrow> None
                 | Some v \<Rightarrow> lazyStar isDot (lit (js '')'')) v"
  from m obtain t g1 g2 where t: "lit (js ''['') s = Some t"
    "lazyStar isDot ?k t = Some (g1, g2, rest)" "rep = aOpen @ g2 @ aMid @ g1 @ aClose"
    by (auto simp: matchLink_def split: option.splits)
  from lazyStar_decomp[OF t(2)] obtain u where u: "t = g1 @ u" "?k u = Some (g2, rest)"
    by auto
  from u(2) obtain v where v: "lit (js '']('') u = Some v"
    "lazyStar isDot (lit (js '')'')) v = Some (g2, rest)"
    by (auto split: option.splits)
  from lazyStar_decomp[OF v(2)] obtain w where w: "v = g2 @ w" "lit (js '')'') w = Some rest"
    by auto
  from t(1) u(1) v(1) w have "s = js ''['' @ g1 @ js '']('' @ g2 @ js '')'' @ rest"
    by (simp add: lit_Some_iff)
  with t(3) show ?thesis by blast
qed

lemma escape_madeOf: "madeOf entities (escape s)"
proof (induction s)
  case Nil
  show ?case by (simp add: madeOf_Nil)
next
  case (Cons c s)
  show ?case
  proof (cases "c \<in> reserved")
    case True
    then have "escapeChar c \<in> set entities"
      by (auto simp: escapeChar_def reserved_def entities_def)
    with Cons show ?thesis by (simp add: escape_Cons madeOf_Piece)
  next
    case False
    then have "escapeChar c = [c]" by (auto simp: escapeChar_def reserved_def)
    with Cons False show ?thesis by (simp add: escape_Cons madeOf_Char)
  qed
qed

lemma earlyMarkup_chars:
  "\<forall>f\<in>set earlyMarkup. f \<noteq> [] \<and> (\<forall>x\<in>set f. x \<notin> delimiterChars)"
  by (simp add: earlyMarkup_def delimiterChars_def entities_def strongOpen_def strongClose_def
      emOpen_def emClose_def delOpen_def delClose_def codeOpen_def codeClose_def js_def ch_def)

lemma markup_char:
  "set F \<subseteq> set earlyMarkup \<Longrightarrow> f \<in> set F \<Longrightarrow> x \<in> set f \<Longrightarrow> x \<notin> delimiterChars"
  using earlyMarkup_chars by blast

lemma markup_nonempty: "set F \<subseteq> set earlyMarkup \<Longrightarrow> [] \<notin> set F"
  using earlyMarkup_chars by blast

lemma delimited_madeOf:
  assumes "madeOf F s" and "s = d @ a @ e @ rest" and "d \<noteq> []" and "e \<noteq> []"
    and "\<And>f x. f \<in> set F \<Longrightarrow> x \<in> set d \<union> set e \<Longrightarrow> x \<notin> set f"
  shows "madeOf F a \<and> madeOf F rest \<and> length rest < length s"
proof -
  from madeOf_split[of F "[]" d "a @ e @ rest"] assms
  have "madeOf F (a @ e @ rest)" by auto
  from madeOf_split[OF this assms(4)] assms(5) have "madeOf F a" "madeOf F rest" by auto
  with assms(2,3) show ?thesis by simp
qed

lemma wrapped_madeOf:
  assumes "madeOf F a" and "set F \<subseteq> set G" and "op \<in> set G" and "cl \<in> set G"
  shows "madeOf G (op @ a @ cl)"
proof -
  from assms(1,2) have "madeOf G a" by (rule madeOf_mono)
  moreover from assms(3,4) have "madeOf G op" "madeOf G cl" by (simp_all add: madeOf_piece)
  ultimately show ?thesis by (simp add: madeOf_append)
qed

text \<open>
  A rule whose matches are a delimiter, a group and a delimiter, and whose template wraps
  the group: it keeps the pieces of earlier markup whole, since none of them has a
  delimiter character.
\<close>

lemma paired_rule_madeOf:
  assumes sub: "set F \<subseteq> set earlyMarkup"
    and G: "set F \<subseteq> set G" "op \<in> set G" "cl \<in> set G"
    and none: "m [] = None"
    and start: "\<And>x t. x \<notin> delimiterChars \<Longrightarrow> m (x # t) = None"
    and decomp: "\<And>s rep rest. m s = Some (rep, rest) \<Longrightarrow>
        \<exists>d a e. d \<noteq> [] \<and> e \<noteq> [] \<and> set d \<union> set e \<subseteq> delimiterChars
           \<and> s = d @ a @ e @ rest \<and> rep = op @ a @ cl"
    and s: "madeOf F s"
  shows "madeOf G (replaceGlobal m s)"
proof (rule replaceGlobal_madeOf[where m = m and F = F and G = G])
  show "[] \<notin> set F" by (rule markup_nonempty[OF sub])
  show "set F \<subseteq> set G" by (rule G(1))
  show "m [] = None" by (rule none)
  show "madeOf F s" by (rule s)
  show "m (x # t) = None" if "f \<in> set F" "x \<in> set f" for f x t
    using markup_char[OF sub that] by (rule start)
  show "madeOf G rep \<and> madeOf F rest \<and> length rest < length s'"
    if "madeOf F s'" "m s' = Some (rep, rest)" for s' rep rest
  proof -
    from decomp[OF that(2)] obtain d a e where
      d: "d \<noteq> []" "e \<noteq> []" "set d \<union> set e \<subseteq> delimiterChars" "s' = d @ a @ e @ rest"
      "rep = op @ a @ cl" by blast
    have "madeOf F a \<and> madeOf F rest \<and> length rest < length s'"
    proof (rule delimited_madeOf[OF that(1) d(4) d(1) d(2)])
      show "x \<notin> set f" if "f \<in> set F" "x \<in> set d \<union> set e" for f x
        using markup_char[OF sub that(1), of x] that(2) d(3) by auto
    qed
    then show ?thesis using d(5) G by (auto intro!: wrapped_madeOf)
  qed
qed

lemma bold_madeOf:
  assumes "madeOf entities s"
  shows "madeOf (entities @ [strongOpen, strongClose]) (replaceGlobal matchBold s)"
proof (rule paired_rule_madeOf[where m = matchBold and F = "entities" and op = strongOpen and cl = strongClose])
  show "matchBold (x # t) = None" if "x \<notin> delimiterChars" for x t
    using that by (simp add: delimiterChars_def)
  show "\<exists>d a e. d \<noteq> [] \<and> e \<noteq> [] \<and> set d \<union> set e \<subseteq> delimiterChars
           \<and> s = d @ a @ e @ rest \<and> rep = strongOpen @ a @ strongClose"
    if "matchBold s = Some (rep, rest)" for s rep rest
  proof -
    from matchBold_decomp[OF that] obtain d a where
      d: "s = d @ a @ d @ rest" "rep = strongOpen @ a @ strongClose" "d \<in> set (map js [''**'', ''__'', ''*'', ''_'', ''~~'', [CHR 0x60]])"
      by auto
    from d(3) have "d \<noteq> [] \<and> set d \<union> set d \<subseteq> delimiterChars"
      by (auto simp: delimiterChars_def js_def ch_def)
    with d(1,2) show ?thesis by blast
  qed
qed (use assms in \<open>auto simp: earlyMarkup_def\<close>)

lemma italic_madeOf:
  assumes "madeOf (entities @ [strongOpen, strongClose]) s"
  shows "madeOf (entities @ [strongOpen, strongClose, emOpen, emClose])
     (replaceGlobal matchItalic s)"
proof (rule paired_rule_madeOf[where m = matchItalic and F = "entities @ [strongOpen, strongClose]" and op = emOpen and cl = emClose])
  show "matchItalic (x # t) = None" if "x \<notin> delimiterChars" for x t
    using that by (simp add: delimiterChars_def)
  show "\<exists>d a e. d \<noteq> [] \<and> e \<noteq> [] \<and> set d \<union> set e \<subseteq> delimiterChars
           \<and> s = d @ a @ e @ rest \<and> rep = emOpen @ a @ emClose"
    if "matchItalic s = Some (rep, rest)" for s rep rest
  proof -
    from matchItalic_decomp[OF that] obtain d a where
      d: "s = d @ a @ d @ rest" "rep = emOpen @ a @ emClose" "d \<in> set (map js [''**'', ''__'', ''*'', ''_'', ''~~'', [CHR 0x60]])"
      by auto
    from d(3) have "d \<noteq> [] \<and> set d \<union> set d \<subseteq> delimiterChars"
      by (auto simp: delimiterChars_def js_def ch_def)
    with d(1,2) show ?thesis by blast
  qed
qed (use assms in \<open>auto simp: earlyMarkup_def\<close>)

lemma strike_madeOf:
  assumes "madeOf (entities @ [strongOpen, strongClose, emOpen, emClose]) s"
  shows "madeOf (entities @ [strongOpen, strongClose, emOpen, emClose, delOpen, delClose])
     (replaceGlobal matchStrike s)"
proof (rule paired_rule_madeOf[where m = matchStrike and F = "entities @ [strongOpen, strongClose, emOpen, emClose]" and op = delOpen and cl = delClose])
  show "matchStrike (x # t) = None" if "x \<notin> delimiterChars" for x t
    using that by (simp add: delimiterChars_def)
  show "\<exists>d a e. d \<noteq> [] \<and> e \<noteq> [] \<and> set d \<union> set e \<subseteq> delimiterChars
           \<and> s = d @ a @ e @ rest \<and> rep = delOpen @ a @ delClose"
    if "matchStrike s = Some (rep, rest)" for s rep rest
  proof -
    from matchStrike_decomp[OF that] obtain d a where
      d: "s = d @ a @ d @ rest" "rep = delOpen @ a @ delClose" "d \<in> set (map js [''**'', ''__'', ''*'', ''_'', ''~~'', [CHR 0x60]])"
      by auto
    from d(3) have "d \<noteq> [] \<and> set d \<union> set d \<subseteq> delimiterChars"
      by (auto simp: delimiterChars_def js_def ch_def)
    with d(1,2) show ?thesis by blast
  qed
qed (use assms in \<open>auto simp: earlyMarkup_def\<close>)

lemma code_madeOf:
  assumes "madeOf (entities @ [strongOpen, strongClose, emOpen, emClose, delOpen, delClose]) s"
  shows "madeOf earlyMarkup (replaceGlobal matchCode s)"
proof (rule paired_rule_madeOf[where m = matchCode and F = "entities @ [strongOpen, strongClose, emOpen, emClose, delOpen, delClose]" and op = codeOpen and cl = codeClose])
  show "matchCode (x # t) = None" if "x \<notin> delimiterChars" for x t
    using that by (simp add: delimiterChars_def)
  show "\<exists>d a e. d \<noteq> [] \<and> e \<noteq> [] \<and> set d \<union> set e \<subseteq> delimiterChars
           \<and> s = d @ a @ e @ rest \<and> rep = codeOpen @ a @ codeClose"
    if "matchCode s = Some (rep, rest)" for s rep rest
  proof -
    from matchCode_decomp[OF that] obtain d a where
      d: "s = d @ a @ d @ rest" "rep = codeOpen @ a @ codeClose" "d \<in> set (map js [''**'', ''__'', ''*'', ''_'', ''~~'', [CHR 0x60]])"
      by auto
    from d(3) have "d \<noteq> [] \<and> set d \<union> set d \<subseteq> delimiterChars"
      by (auto simp: delimiterChars_def js_def ch_def)
    with d(1,2) show ?thesis by blast
  qed
qed (use assms in \<open>auto simp: earlyMarkup_def\<close>)

lemma link_madeOf:
  assumes "madeOf earlyMarkup s"
  shows "madeOf (entities @ inlineMarkup) (replaceGlobal matchLink s)"
proof (rule replaceGlobal_madeOf[where m = matchLink and F = earlyMarkup
      and G = "entities @ inlineMarkup"])
  note mc = markup_char[OF subset_refl]
  show "[] \<notin> set earlyMarkup" by (rule markup_nonempty[OF subset_refl])
  show sub: "set earlyMarkup \<subseteq> set (entities @ inlineMarkup)"
    by (auto simp: earlyMarkup_def inlineMarkup_def)
  show "matchLink [] = None" by simp
  show "madeOf earlyMarkup s" by (rule assms)
  show "matchLink (x # t) = None" if "f \<in> set earlyMarkup" "x \<in> set f" for f x t
    using mc[OF that] by (simp add: delimiterChars_def)
  show "madeOf (entities @ inlineMarkup) rep \<and> madeOf earlyMarkup rest \<and> length rest < length s'"
    if "madeOf earlyMarkup s'" "matchLink s' = Some (rep, rest)" for s' rep rest
  proof -
    from matchLink_decomp[OF that(2)] obtain l u where
      d: "s' = js ''['' @ l @ js '']('' @ u @ js '')'' @ rest"
      "rep = aOpen @ u @ aMid @ l @ aClose" by auto
    have 1: "madeOf earlyMarkup l \<and> madeOf earlyMarkup (u @ js '')'' @ rest)
        \<and> length (u @ js '')'' @ rest) < length s'"
    proof (rule delimited_madeOf[OF that(1) d(1)])
      show "js ''['' \<noteq> []" "js '']('' \<noteq> []" by (simp_all add: js_def)
      show "x \<notin> set f" if "f \<in> set earlyMarkup" "x \<in> set (js ''['') \<union> set (js '']('')" for f x
        using mc[OF that(1), of x] that(2) by (auto simp: delimiterChars_def js_def ch_def)
    qed
    have 2: "madeOf earlyMarkup u \<and> madeOf earlyMarkup rest"
    proof (rule madeOf_split[of _ _ "js '')''"])
      show "madeOf earlyMarkup (u @ js '')'' @ rest)" using 1 by simp
      show "js '')'' \<noteq> []" by (simp add: js_def)
      show "x \<notin> set f" if "f \<in> set earlyMarkup" "x \<in> set (js '')'')" for f x
        using mc[OF that(1), of x] that(2) by (auto simp: delimiterChars_def js_def ch_def)
    qed
    have a: "aOpen \<in> set (entities @ inlineMarkup)" "aMid \<in> set (entities @ inlineMarkup)"
      "aClose \<in> set (entities @ inlineMarkup)"
      by (simp_all add: inlineMarkup_def)
    from 1 have l: "madeOf (entities @ inlineMarkup) l" by (simp add: madeOf_mono[OF _ sub])
    from 2 have u: "madeOf (entities @ inlineMarkup) u" by (simp add: madeOf_mono[OF _ sub])
    from l u a have "madeOf (entities @ inlineMarkup) rep"
      unfolding d(2) by (intro madeOf_append) (simp_all add: madeOf_piece)
    moreover from d(1) have "length rest < length s'" by (simp add: js_def)
    ultimately show ?thesis using 2 by simp
  qed
qed

lemma applyInlineFormatting_madeOf: "madeOf (entities @ inlineMarkup) (applyInlineFormatting s)"
  unfolding applyInlineFormatting_def
  by (intro link_madeOf code_madeOf strike_madeOf italic_madeOf bold_madeOf escape_madeOf)

lemma inline_rendererMarkup: "madeOf rendererMarkup (applyInlineFormatting s)"
  by (rule madeOf_mono[OF applyInlineFormatting_madeOf]) (auto simp: rendererMarkup_def)

lemma block_piece: "f \<in> set blockMarkup \<Longrightarrow> madeOf rendererMarkup f"
  by (rule madeOf_piece) (simp add: rendererMarkup_def)

lemma newline_not_reserved: "10 \<notin> reserved"
  by (simp add: reserved_def ch_def)

lemma join_madeOf: "(\<And>x. x \<in> set xs \<Longrightarrow> madeOf F x) \<Longrightarrow> madeOf F (join xs)"
proof (induction xs rule: join.induct)
  case 1
  show ?case by (simp add: madeOf_Nil)
next
  case (2 x)
  then show ?case by simp
next
  case (3 x y ys)
  then have "madeOf F x" "madeOf F (join (y # ys))" by simp_all
  then show ?case
    using newline_not_reserved by (auto intro!: madeOf_append madeOf_Char)
qed

lemma quoteLoop_madeOf:
  "quoteLoop lines n qc = (n', qc') \<Longrightarrow> \<forall>x\<in>set qc. madeOf rendererMarkup x \<Longrightarrow>
   \<forall>x\<in>set qc'. madeOf rendererMarkup x"
proof (induction lines n qc rule: quoteLoop.induct)
  case (1 lines n qc)
  show ?case
  proof (cases "n + 1 < length lines \<and> startsWith (lines ! (n + 1)) (js ''>'')")
    case True
    with "1.prems"(1) have "quoteLoop lines (n + 1)
        (qc @ [applyInlineFormatting (trim (drop 1 (lines ! (n + 1))))]) = (n', qc')"
      by (subst (asm) quoteLoop.simps) simp
    moreover have "\<forall>x\<in>set (qc @ [applyInlineFormatting (trim (drop 1 (lines ! (n + 1))))]).
        madeOf rendererMarkup x"
      using "1.prems"(2) by (simp add: inline_rendererMarkup)
    ultimately show ?thesis using "1.IH"[OF True] by blast
  next
    case False
    with "1.prems"(1) have "qc' = qc" by (subst (asm) quoteLoop.simps) auto
    with "1.prems" show ?thesis by simp
  qed
qed

lemma closeTag_piece: "js ''</'' @ tagName k @ js ''>'' \<in> set blockMarkup"
  by (cases k) (simp_all add: blockMarkup_def js_def)

lemma closeListIfNeeded_madeOf:
  "madeOf rendererMarkup (html st) \<Longrightarrow> madeOf rendererMarkup (html (closeListIfNeeded st))"
  using block_piece[OF closeTag_piece]
  by (auto simp: closeListIfNeeded_def split: option.splits intro: madeOf_append)

lemma headingMarkup_split:
  "headingMarkup lv c = headingOpen lv @ c @ headingClose lv"
  by (simp add: headingMarkup_def headingOpen_def headingClose_def)

lemma heading_pieces:
  "1 \<le> lv \<Longrightarrow> lv \<le> 3 \<Longrightarrow> headingOpen lv \<in> set blockMarkup \<and> headingClose lv \<in> set blockMarkup"
proof -
  assume "1 \<le> lv" "lv \<le> 3"
  then have "lv = 1 \<or> lv = 2 \<or> lv = 3" by arith
  then show ?thesis by (auto simp: blockMarkup_def)
qed

lemma block_pieces [simp]:
  "blockquoteOpen \<in> set blockMarkup" "blockquoteClose \<in> set blockMarkup"
  "hrMarkup \<in> set blockMarkup" "ulOpen \<in> set blockMarkup" "olOpen \<in> set blockMarkup"
  "js ''<li>'' \<in> set blockMarkup" "js ''</li>'' \<in> set blockMarkup"
  "pOpen \<in> set blockMarkup" "pClose \<in> set blockMarkup"
  by (simp_all add: blockMarkup_def)

lemma liMarkup_madeOf: "madeOf rendererMarkup (liMarkup (applyInlineFormatting g))"
  by (simp add: liMarkup_def madeOf_append block_piece inline_rendererMarkup)

lemma step_madeOf:
  assumes "madeOf rendererMarkup (html st)"
  shows "madeOf rendererMarkup (html (step lines st))"
proof -
  note c = closeListIfNeeded_madeOf[OF assms]
  show ?thesis
  proof (cases rule: step_cases[of lines st])
    case (heading lv g)
    from headingMatch_Some[OF heading] have "1 \<le> lv" "lv \<le> 3" by simp_all
    from heading_pieces[OF this] show ?thesis
      by (simp add: step_heading[OF heading] headingMarkup_split madeOf_append c block_piece
          inline_rendererMarkup)
  next
    case (blockquote g n qc)
    have "\<forall>x\<in>set qc. madeOf rendererMarkup x"
      by (rule quoteLoop_madeOf[OF blockquote(3)]) (simp add: inline_rendererMarkup)
    then have "madeOf rendererMarkup (join qc)" by (simp add: join_madeOf)
    then show ?thesis
      by (simp add: step_blockquote[OF blockquote] madeOf_append c block_piece)
  next
    case hrule
    then show ?thesis
      by (simp add: step_rule[OF hrule] madeOf_append c block_piece)
  next
    case (ulist g)
    show ?thesis
      by (simp add: step_ul[OF ulist] madeOf_append c assms block_piece liMarkup_madeOf)
  next
    case (olist g)
    show ?thesis
      by (simp add: step_ol[OF olist] madeOf_append c assms block_piece liMarkup_madeOf)
  next
    case (para n pl)
    show ?thesis
      by (simp add: step_paragraph[OF para] madeOf_append c block_piece inline_rendererMarkup)
  next
    case blank
    show ?thesis
      by (simp add: step_blank[OF blank] c)
  qed
qed

text \<open>
  C7. \<open>escape\<close>, the three replacements in the order of the source, puts the entity for each
  \<^verbatim>\<open>&\<close>, \<^verbatim>\<open><\<close> and \<^verbatim>\<open>>\<close> and copies every other character, so its result consists of entities
  and of characters other than these three. \<open>applyInlineFormatting\<close> escapes before it
  substitutes any markup, and every text of every block of the output is a result of
  \<open>applyInlineFormatting\<close>. In the output of \<open>renderSimpleMarkdown\<close> every \<^verbatim>\<open>&\<close>, \<^verbatim>\<open><\<close> and
  \<^verbatim>\<open>>\<close> lies in an entity or in a piece of markup of the templates of the renderer.
\<close>

theorem reserved_characters_escaped:
  "escape s = concat (map escapeChar s)
   \<and> madeOf entities (escape s)
   \<and> applyInlineFormatting s
       = replaceGlobal matchLink (replaceGlobal matchCode (replaceGlobal matchStrike
           (replaceGlobal matchItalic (replaceGlobal matchBold (escape s)))))
   \<and> renderSimpleMarkdown text = Some (concat (map emit (blocksOf text)))
   \<and> (\<forall>b\<in>set (blocksOf text). formatted b)
   \<and> madeOf rendererMarkup (concat (map emit (blocksOf text)))"
proof -
  have "\<exists>out. renderSimpleMarkdown text = Some out \<and> madeOf rendererMarkup out"
  proof (cases "text = []")
    case True
    then show ?thesis by (simp add: renderSimpleMarkdown_def madeOf_Nil)
  next
    case False
    have "madeOf rendererMarkup (html initial)" by (simp add: initial_def madeOf_Nil)
    from loop_rule[of "\<lambda>s. madeOf rendererMarkup (html s)", OF this step_madeOf]
    obtain st' where "loop (split text) initial = Some st'" "madeOf rendererMarkup (html st')"
      by blast
    with False show ?thesis
      by (simp add: renderSimpleMarkdown_def closeListIfNeeded_madeOf)
  qed
  then have "madeOf rendererMarkup (concat (map emit (blocksOf text)))"
    by (simp add: render_blocksOf)
  with escape_concat[of s] escape_madeOf[of s] render_blocksOf[of "text"] blocksOf_formatted
  show ?thesis by (simp add: applyInlineFormatting_def)
qed

theorem reserved_characters_escaped_witness:
  \<open>escape (js ''a<b>&c'') = js ''a&lt;b&gt;&amp;c''
   \<and> madeOf entities (js ''a&lt;b&gt;&amp;c'')
   \<and> renderSimpleMarkdown (js ''a<b>&c'') = Some (pOpen @ js ''a&lt;b&gt;&amp;c'' @ pClose)
   \<and> formatted (Paragraph (js ''a&lt;b&gt;&amp;c''))
   \<and> madeOf rendererMarkup (pOpen @ js ''a&lt;b&gt;&amp;c'' @ pClose)\<close>
proof -
  have b: \<open>blocksOf (js ''a<b>&c'') = [Paragraph (js ''a&lt;b&gt;&amp;c'')]\<close>
    by (simp add: blocksOf_def stepBlocks_def closeBlocks_def inline_defs match_defs block_defs)
  have e: \<open>concat (map escapeChar (js ''a<b>&c'')) = js ''a&lt;b&gt;&amp;c''\<close>
    by (simp add: escapeChar_def js_def ch_def)
  from reserved_characters_escaped[of \<open>js ''a<b>&c''\<close> \<open>js ''a<b>&c''\<close>]
  have 1: \<open>escape (js ''a<b>&c'') = concat (map escapeChar (js ''a<b>&c''))\<close>
    and 2: \<open>madeOf entities (escape (js ''a<b>&c''))\<close>
    and 3: \<open>renderSimpleMarkdown (js ''a<b>&c'')
        = Some (concat (map emit (blocksOf (js ''a<b>&c''))))\<close>
    and 4: \<open>\<forall>b\<in>set (blocksOf (js ''a<b>&c'')). formatted b\<close>
    and 5: \<open>madeOf rendererMarkup (concat (map emit (blocksOf (js ''a<b>&c''))))\<close>
    by blast+
  from 1 have ee: \<open>escape (js ''a<b>&c'') = js ''a&lt;b&gt;&amp;c''\<close>
    unfolding e .
  from 2 have \<open>madeOf entities (js ''a&lt;b&gt;&amp;c'')\<close>
    unfolding ee .
  moreover from 3 have \<open>renderSimpleMarkdown (js ''a<b>&c'')
      = Some (pOpen @ js ''a&lt;b&gt;&amp;c'' @ pClose)\<close>
    unfolding b by simp
  moreover from 4 have \<open>formatted (Paragraph (js ''a&lt;b&gt;&amp;c''))\<close>
    unfolding b by simp
  moreover from 5 have \<open>madeOf rendererMarkup (pOpen @ js ''a&lt;b&gt;&amp;c'' @ pClose)\<close>
    unfolding b by simp
  ultimately show ?thesis using ee by blast
qed

section \<open>Code spans\<close>










end
